theory Spec2Isabelle
  imports Complex_Main "HOL-Library.Multiset" "HOL-Library.Log_Nat"
begin

section \<open>Bucket-range validation (bucketize\_procedure.cc, onPostValidate)\<close>

text \<open>
  A percentile range is the \<open>pair<float, float>\<close> of the source. Every finite float is a
  rational number, and the validator only compares, so the bounds are rationals here;
  which rationals are single-precision values matters for the index arithmetic only.
\<close>

type_synonym range = "rat \<times> rat"

text \<open>The four exceptions of the validation loop, the failure of the query check
  \<open>MustContainFrom\<close> that follows it, the failed \<open>ExcAssert\<close> of the run, and a read
  outside \<open>orderedRowNames\<close>.\<close>

datatype error =
    LowerBoundBelowZero range
  | HigherBoundAbove100 range
  | HigherNotGreaterThanLower range
  | Overlapping range range
  | MissingFrom
  | AssertionFailed
  | IndexOutOfRange

text \<open>The body of \<open>for (const auto & range: ranges)\<close>, with \<open>last\<close> threaded through as \<open>last'\<close>.\<close>

fun checkRanges :: "range \<Rightarrow> range list \<Rightarrow> error option" where
  "checkRanges last' [] = None"
| "checkRanges last' (range' # ranges) =
     (if fst range' < 0 then Some (LowerBoundBelowZero range')
      else if snd range' > 100 then Some (HigherBoundAbove100 range')
      else if fst range' \<ge> snd range' then Some (HigherNotGreaterThanLower range')
      else if fst range' < snd last' then Some (Overlapping last' range')
      else checkRanges range' ranges)"

text \<open>
  \<open>percentileBuckets\<close> is a map from bucket name to range; it is iterated in key order,
  which the association list records.
\<close>

type_synonym buckets = "(string \<times> range) list"

definition sentinel :: range where
  "sentinel = (-1, -1)"

text \<open>
  \<open>sort(ranges.begin(), ranges.end(), sorter)\<close> compares the lower bounds only, and
  \<open>std::sort\<close> is not stable: it returns some arrangement of the ranges in which the
  lower bounds do not decrease, and may put ranges with equal lower bounds in any order.
  The sort is therefore a parameter, of which only that much is known.
\<close>

definition std_sort :: "(range list \<Rightarrow> range list) \<Rightarrow> bool" where
  "std_sort sort' \<longleftrightarrow> (\<forall>ranges. mset (sort' ranges) = mset ranges \<and> sorted (map fst (sort' ranges)))"

definition validateRanges :: "(range list \<Rightarrow> range list) \<Rightarrow> buckets \<Rightarrow> error option" where
  "validateRanges sort' percentileBuckets =
     checkRanges sentinel (sort' (map snd percentileBuckets))"

text \<open>\<open>from_ok\<close> stands for the outcome of \<open>MustContainFrom<InputQuery>\<close>, which is not
  part of these sources.\<close>

definition onPostValidate ::
  "(range list \<Rightarrow> range list) \<Rightarrow> buckets \<Rightarrow> bool \<Rightarrow> error option" where
  "onPostValidate sort' percentileBuckets from_ok =
     (case validateRanges sort' percentileBuckets of
        Some e \<Rightarrow> Some e
      | None \<Rightarrow> if from_ok then None else Some MissingFrom)"

text \<open>The checks as the specification lists them: one range against the previously
  accepted one.\<close>

definition range_ok :: "range \<Rightarrow> range \<Rightarrow> bool" where
  "range_ok prev r \<longleftrightarrow> fst r \<ge> 0 \<and> snd r \<le> 100 \<and> fst r < snd r \<and> fst r \<ge> snd prev"

definition first_failed_check :: "range \<Rightarrow> range \<Rightarrow> error option" where
  "first_failed_check prev r =
     (if \<not> fst r \<ge> 0 then Some (LowerBoundBelowZero r)
      else if \<not> snd r \<le> 100 then Some (HigherBoundAbove100 r)
      else if \<not> fst r < snd r then Some (HigherNotGreaterThanLower r)
      else if \<not> fst r \<ge> snd prev then Some (Overlapping prev r)
      else None)"

text \<open>The range before position \<open>i\<close> of the sorted list; the sentinel before the first.\<close>

definition previous :: "range list \<Rightarrow> nat \<Rightarrow> range" where
  "previous rs i = (if i = 0 then sentinel else rs ! (i - 1))"

text \<open>The same for a loop that starts with \<open>p\<close> as \<open>last\<close>.\<close>

definition prev_from :: "range \<Rightarrow> range list \<Rightarrow> nat \<Rightarrow> range" where
  "prev_from p rs i = (if i = 0 then p else rs ! (i - 1))"

definition is_error :: "error option \<Rightarrow> bool" where
  "is_error r \<longleftrightarrow> r \<noteq> None"

section \<open>Single-precision arithmetic\<close>

text \<open>
  The bounds are \<open>float\<close>, so \<open>range.first / 100 * rowCount\<close> is evaluated in IEEE 754
  single precision: \<open>100\<close> and \<open>rowCount\<close> are converted to \<open>float\<close>, and the quotient and
  the product are each rounded to the nearest float, ties to even. A finite float is
  \<open>m * 2\<^sup>e\<close> with \<open>\<bar>m\<bar> < 2\<^sup>2\<^sup>4\<close> and \<open>e \<ge> -149\<close>. Overflow is left out: with a row count
  below \<open>2\<^sup>6\<^sup>3\<close> and percentages up to 100 no value comes near the largest float.
\<close>

definition round_half_even :: "rat \<Rightarrow> int" where
  "round_half_even q =
     (let f = \<lfloor>q\<rfloor>; d = q - of_int f
      in if d < 1 / 2 then f else if d > 1 / 2 then f + 1
         else if even f then f else f + 1)"

text \<open>\<open>\<lfloor>log\<^sub>2 x\<rfloor>\<close> of a positive rational, from the bit lengths of numerator and denominator.\<close>

definition ilog2 :: "rat \<Rightarrow> int" where
  "ilog2 x =
     (let k = bitlen (fst (quotient_of x)) - bitlen (snd (quotient_of x))
      in if 2 powi k \<le> x then k else k - 1)"

text \<open>The exponent of the unit in the last place: 24 significant bits, and the subnormal
  spacing \<open>2\<^sup>-\<^sup>1\<^sup>4\<^sup>9\<close> below \<open>2\<^sup>-\<^sup>1\<^sup>2\<^sup>6\<close>.\<close>

definition ulp_exp :: "rat \<Rightarrow> int" where
  "ulp_exp x = max (ilog2 \<bar>x\<bar> - 23) (- 149)"

definition float_round :: "rat \<Rightarrow> rat" where
  "float_round x =
     (if x = 0 then 0
      else of_int (round_half_even (x / 2 powi ulp_exp x)) * 2 powi ulp_exp x)"

definition is_float :: "rat \<Rightarrow> bool" where
  "is_float x \<longleftrightarrow> float_round x = x"

definition float_div :: "rat \<Rightarrow> rat \<Rightarrow> rat" where
  "float_div x y = float_round (x / y)"

definition float_mul :: "rat \<Rightarrow> rat \<Rightarrow> rat" where
  "float_mul x y = float_round (x * y)"

text \<open>The implicit conversion of \<open>rowCount\<close> in \<open>float * int64_t\<close>.\<close>

definition float_of_int64 :: "int \<Rightarrow> rat" where
  "float_of_int64 n = float_round (of_int n)"

text \<open>The cast \<open>int64_t(x)\<close> truncates towards zero.\<close>

definition int64_of_float :: "rat \<Rightarrow> int" where
  "int64_of_float x = (if 0 \<le> x then \<lfloor>x\<rfloor> else \<lceil>x\<rceil>)"

text \<open>The largest float below 1.\<close>

definition below_one :: rat where
  "below_one = 1 - 1 / 2 ^ 24"

section \<open>The percentile window (BucketizeProcedure::run, lines 193 to 199)\<close>

definition lowerBound :: "range \<Rightarrow> int \<Rightarrow> int" where
  "lowerBound range' rowCount =
     (if snd range' = 0 then 0
      else int64_of_float (float_mul (float_div (fst range') 100) (float_of_int64 rowCount)))"

definition higherBound :: "range \<Rightarrow> int \<Rightarrow> int" where
  "higherBound range' rowCount =
     (if snd range' = 100 then rowCount
      else int64_of_float (float_mul (float_div (snd range') 100) (float_of_int64 rowCount)))"

text \<open>The two bounds with \<open>ExcAssert(higherBound <= rowCount)\<close>.\<close>

definition window :: "range \<Rightarrow> int \<Rightarrow> error + (int \<times> int)" where
  "window range' rowCount =
     (if higherBound range' rowCount \<le> rowCount
      then Inr (lowerBound range' rowCount, higherBound range' rowCount)
      else Inl AssertionFailed)"

text \<open>A range as the validation accepts it, with bounds that are floats.\<close>

definition validated :: "range \<Rightarrow> bool" where
  "validated r \<longleftrightarrow> is_float (fst r) \<and> is_float (snd r)
     \<and> 0 \<le> fst r \<and> fst r < snd r \<and> snd r \<le> 100"

text \<open>The index rule in the specification's words, with the arithmetic of the code.\<close>

definition float_loIdx :: "rat \<Rightarrow> int \<Rightarrow> int" where
  "float_loIdx low N =
     (if low = 0 then 0 else \<lfloor>float_mul (float_div low 100) (float_of_int64 N)\<rfloor>)"

definition float_hiIdx :: "rat \<Rightarrow> int \<Rightarrow> int" where
  "float_hiIdx high N =
     (if high = 100 then N else \<lfloor>float_mul (float_div high 100) (float_of_int64 N)\<rfloor>)"

text \<open>The same rule read in exact arithmetic.\<close>

definition exact_loIdx :: "rat \<Rightarrow> int \<Rightarrow> int" where
  "exact_loIdx low N = (if low = 0 then 0 else \<lfloor>low / 100 * of_int N\<rfloor>)"

definition exact_hiIdx :: "rat \<Rightarrow> int \<Rightarrow> int" where
  "exact_hiIdx high N = (if high = 100 then N else \<lfloor>high / 100 * of_int N\<rfloor>)"


definition window_indices :: "range \<Rightarrow> int \<Rightarrow> int list" where
  "window_indices r N = [lowerBound r N..higherBound r N - 1]"






section \<open>Collecting the ranked rows (getSize, lines 138 to 166)\<close>

text \<open>
  Modelled from the spec: the \<open>Date\<close> type (mldb/types/date.h is not among the sources).
  A timestamp is a number of seconds, one of the two infinities, or not a date; only a
  number of seconds is a defined timestamp. \<open>setMax\<close> keeps the later of two dates.
\<close>

datatype date = NotADate | NegativeInfinity | Seconds int | PositiveInfinity

fun isADate :: "date \<Rightarrow> bool" where
  "isADate (Seconds s) = True"
| "isADate _ = False"

fun date_less :: "date \<Rightarrow> date \<Rightarrow> bool" where
  "date_less NotADate _ = False"
| "date_less _ NotADate = False"
| "date_less NegativeInfinity NegativeInfinity = False"
| "date_less NegativeInfinity _ = True"
| "date_less (Seconds a) (Seconds b) = (a < b)"
| "date_less (Seconds a) PositiveInfinity = True"
| "date_less (Seconds a) NegativeInfinity = False"
| "date_less PositiveInfinity _ = False"

definition setMax :: "date \<Rightarrow> date \<Rightarrow> date" where
  "setMax d other = (if date_less d other then other else d)"

text \<open>The state the callback \<open>getSize\<close> captures by reference.\<close>

record 'r collector =
  orderedRowNames :: "'r list"
  globalMaxOrderByTimestamp :: date

text \<open>A scanned row: its name and the timestamp of each \<open>latest_timestamp\<close> value in
  \<open>calc\<close>, one per order-by clause.\<close>

type_synonym 'r scanned_row = "'r \<times> date list"

definition getSize :: "'r collector \<Rightarrow> 'r scanned_row \<Rightarrow> 'r collector" where
  "getSize st row =
     \<lparr>orderedRowNames = orderedRowNames st @ [fst row],
      globalMaxOrderByTimestamp =
        fold (\<lambda>ts g. if isADate ts then setMax g ts else g) (snd row)
          (globalMaxOrderByTimestamp st)\<rparr>"

text \<open>\<open>BoundSelectQuery::execute\<close> hands the rows to the callback in rank order; the
  callback always returns \<open>true\<close>, so the scan is never cut short by it.\<close>

definition execute :: "'r scanned_row list \<Rightarrow> 'r collector" where
  "execute rows =
     fold (\<lambda>row st. getSize st row) rows
       \<lparr>orderedRowNames = [], globalMaxOrderByTimestamp = NegativeInfinity\<rparr>"

definition all_timestamps :: "'r scanned_row list \<Rightarrow> date list" where
  "all_timestamps rows = concat (map snd rows)"

fun defined_seconds :: "date list \<Rightarrow> int list" where
  "defined_seconds [] = []"
| "defined_seconds (Seconds s # ds) = s # defined_seconds ds"
| "defined_seconds (d # ds) = defined_seconds ds"

section \<open>Writing the buckets (lines 172 to 214)\<close>

text \<open>A cell is \<open>tuple<ColumnName, CellValue, Date>\<close>; a batch is the vector of rows a
  thread has accumulated.\<close>

type_synonym cell = "string \<times> string \<times> date"

type_synonym 'r batch = "('r \<times> cell list) list"

text \<open>
  Modelled from the spec: \<open>PerThreadAccumulator\<close> (mldb/server/per\_thread\_accumulator.h is
  not among the sources) gives each thread its own batch, created empty when the thread
  first asks for it; \<open>forEach\<close> visits every batch created. The output dataset is the list
  of batches handed to \<open>recordRows\<close>, in call order.
\<close>

record 'r writer =
  accum :: "(nat \<times> 'r batch) list"
  recorded :: "'r batch list"

definition get_rows :: "nat \<Rightarrow> (nat \<times> 'r batch) list \<Rightarrow> 'r batch" where
  "get_rows t acc = (case map_of acc t of None \<Rightarrow> [] | Some rows \<Rightarrow> rows)"

definition set_rows :: "nat \<Rightarrow> 'r batch \<Rightarrow> (nat \<times> 'r batch) list \<Rightarrow> (nat \<times> 'r batch) list" where
  "set_rows t rows acc =
     (if t \<in> fst ` set acc then map (\<lambda>ub. if fst ub = t then (t, rows) else ub) acc
      else acc @ [(t, rows)])"

text \<open>\<open>rows.emplace_back(orderedRowNames[index], rowValue)\<close> on thread \<open>t\<close>; reading
  outside the vector is undefined in the source and an error here.\<close>

definition emplace_back :: "'r list \<Rightarrow> cell list \<Rightarrow> 'r writer \<Rightarrow> nat \<times> int \<Rightarrow> error + 'r writer" where
  "emplace_back names rowValue st ti =
     (if 0 \<le> snd ti \<and> snd ti < int (length names)
      then Inr (st\<lparr>accum := set_rows (fst ti)
                  (get_rows (fst ti) (accum st) @ [(names ! nat (snd ti), rowValue)]) (accum st)\<rparr>)
      else Inl IndexOutOfRange)"

text \<open>\<open>if (rows.size() >= 1024) { output->recordRows(rows); rows.clear(); }\<close>\<close>

definition flush_if_full :: "'r writer \<Rightarrow> nat \<Rightarrow> 'r writer" where
  "flush_if_full st t =
     (if length (get_rows t (accum st)) \<ge> 1024
      then st\<lparr>recorded := recorded st @ [get_rows t (accum st)],
              accum := set_rows t [] (accum st)\<rparr>
      else st)"

definition applyFct :: "'r list \<Rightarrow> cell list \<Rightarrow> 'r writer \<Rightarrow> nat \<times> int \<Rightarrow> error + 'r writer" where
  "applyFct names rowValue st ti =
     (case emplace_back names rowValue st ti of
        Inl e \<Rightarrow> Inl e
      | Inr st' \<Rightarrow> Inr (flush_if_full st' (fst ti)))"

text \<open>
  Modelled from the spec: \<open>parallelMap\<close> (mldb/base/parallel.h is not among the sources)
  processes each index of \<open>[lo, hi)\<close> exactly once, on some worker thread and in no
  particular order, and returns when every index has completed. A schedule lists the
  calls in the order they take effect, each with the thread that makes it; a batch belongs
  to one thread, so a call is one step. \<open>valid_schedule lo hi\<close> holds of the schedules
  that \<open>parallelMap(lo, hi, f)\<close> may follow.
\<close>

type_synonym schedule = "(nat \<times> int) list"

definition valid_schedule :: "int \<Rightarrow> int \<Rightarrow> schedule \<Rightarrow> bool" where
  "valid_schedule lo hi sched \<longleftrightarrow> mset (map snd sched) = mset [lo..hi - 1]"

fun run_schedule :: "('s \<Rightarrow> nat \<times> int \<Rightarrow> error + 's) \<Rightarrow> schedule \<Rightarrow> 's \<Rightarrow> error + 's" where
  "run_schedule f [] st = Inr st"
| "run_schedule f (ti # sched) st =
     (case f st ti of Inl e \<Rightarrow> Inl e | Inr st' \<Rightarrow> run_schedule f sched st')"

definition parallelMap ::
  "int \<Rightarrow> int \<Rightarrow> ('s \<Rightarrow> nat \<times> int \<Rightarrow> error + 's) \<Rightarrow> schedule \<Rightarrow> 's \<Rightarrow> error + 's" where
  "parallelMap lo hi f sched st = run_schedule f sched st"

text \<open>The loop \<open>for (const auto & mappedRange: runProcConf.percentileBuckets)\<close>;
  \<open>sched_of\<close> gives the schedule the thread pool follows for each bucket.\<close>

fun process_buckets ::
  "'r list \<Rightarrow> date \<Rightarrow> (string \<Rightarrow> schedule) \<Rightarrow> buckets \<Rightarrow> 'r writer \<Rightarrow> error + 'r writer" where
  "process_buckets names ts sched_of [] st = Inr st"
| "process_buckets names ts sched_of (mappedRange # rest) st =
     (let rowValue = [(''bucket'', fst mappedRange, ts)];
          rowCount = int (length names)
      in case window (snd mappedRange) rowCount of
           Inl e \<Rightarrow> Inl e
         | Inr (lo, hi) \<Rightarrow>
             (case parallelMap lo hi (applyFct names rowValue) (sched_of (fst mappedRange)) st of
                Inl e \<Rightarrow> Inl e
              | Inr st' \<Rightarrow> process_buckets names ts sched_of rest st'))"

text \<open>\<open>accum.forEach\<close> after the loop: every batch is recorded, none is cleared.\<close>

definition record_remainder :: "'r writer \<Rightarrow> 'r writer" where
  "record_remainder st = st\<lparr>recorded := recorded st @ map snd (accum st)\<rparr>"

definition empty_writer :: "'r writer" where
  "empty_writer = \<lparr>accum = [], recorded = []\<rparr>"

text \<open>\<open>BucketizeProcedure::run\<close>: collect, write every bucket, record the remainder,
  commit. The result is the content of the output dataset.\<close>

definition run :: "'r scanned_row list \<Rightarrow> (string \<Rightarrow> schedule) \<Rightarrow> buckets \<Rightarrow> error + 'r batch list" where
  "run rows sched_of percentileBuckets =
     (let c = execute rows
      in case process_buckets (orderedRowNames c) (globalMaxOrderByTimestamp c) sched_of
                percentileBuckets empty_writer of
           Inl e \<Rightarrow> Inl e
         | Inr st \<Rightarrow> Inr (recorded (record_remainder st)))"

text \<open>The procedure: the configuration is validated when it is loaded, and only a
  configuration that passed is run.\<close>

definition bucketize ::
  "(range list \<Rightarrow> range list) \<Rightarrow> buckets \<Rightarrow> bool \<Rightarrow> 'r scanned_row list
     \<Rightarrow> (string \<Rightarrow> schedule) \<Rightarrow> error + 'r batch list" where
  "bucketize sort' percentileBuckets from_ok rows sched_of =
     (case onPostValidate sort' percentileBuckets from_ok of
        Some e \<Rightarrow> Inl e
      | None \<Rightarrow> run rows sched_of percentileBuckets)"

text \<open>Every schedule of a run is a valid schedule of its bucket's window.\<close>

definition valid_schedules :: "int \<Rightarrow> (string \<Rightarrow> schedule) \<Rightarrow> buckets \<Rightarrow> bool" where
  "valid_schedules rowCount sched_of percentileBuckets \<longleftrightarrow>
     (\<forall>b \<in> set percentileBuckets.
        valid_schedule (lowerBound (snd b) rowCount) (higherBound (snd b) rowCount)
          (sched_of (fst b)))"

text \<open>The rows a window assigns to a bucket.\<close>

definition window_rows :: "'r list \<Rightarrow> date \<Rightarrow> string \<times> range \<Rightarrow> 'r batch" where
  "window_rows names ts b =
     map (\<lambda>i. (names ! nat i, [(''bucket'', fst b, ts)]))
       [lowerBound (snd b) (int (length names))..higherBound (snd b) (int (length names)) - 1]"

text \<open>The rows not yet handed to the output dataset.\<close>

definition pending :: "'r writer \<Rightarrow> 'r batch" where
  "pending st = concat (map snd (accum st))"

definition all_rows :: "'r writer \<Rightarrow> 'r batch" where
  "all_rows st = concat (recorded st) @ pending st"

definition batches_below_threshold :: "'r writer \<Rightarrow> bool" where
  "batches_below_threshold st \<longleftrightarrow>
     distinct (map fst (accum st)) \<and> (\<forall>tb \<in> set (accum st). length (snd tb) < 1024)"

text \<open>The invariant between calls, and the weaker one inside a call.\<close>

definition batches_within :: "nat \<Rightarrow> 'r writer \<Rightarrow> bool" where
  "batches_within n st \<longleftrightarrow>
     distinct (map fst (accum st)) \<and> (\<forall>tb \<in> set (accum st). length (snd tb) \<le> n)"

definition full_batches :: "'r writer \<Rightarrow> bool" where
  "full_batches st \<longleftrightarrow> (\<forall>b \<in> set (recorded st). length b = 1024)"

definition window_drained :: "'r writer \<Rightarrow> bool" where
  "window_drained st \<longleftrightarrow> pending st = []"

section \<open>The JSON-lines importer (json\_importer.cc)\<close>

record JSONImporterConfig =
  limit :: int
  offset :: int
  ignoreBadLines :: bool

datatype import_error = UnableToParseLine int | NotAnObject int

text \<open>The counters \<open>errors\<close> and \<open>recordedLines\<close> and the rows given to
  \<open>outputDataset->recordRow\<close>; a row is named by its line number plus one.\<close>

record 'c importer =
  errors :: int
  recordedLines :: int
  outputDataset :: "(int \<times> 'c list) list"

text \<open>
  The callback \<open>onLine\<close>. The JSON library is not among the sources, so a JSON value is
  a value of any type \<open>'j\<close>: \<open>parse\<close> stands for \<open>Json::Reader::parse\<close> (\<open>None\<close> when it
  returns false), \<open>isObject\<close> for \<open>Json::Value::isObject\<close>, and \<open>columns\<close> for the
  flattening of the object done by \<open>emplaceCol\<close>.
\<close>

definition onLine ::
  "(string \<Rightarrow> 'j option) \<Rightarrow> ('j \<Rightarrow> bool) \<Rightarrow> ('j \<Rightarrow> 'c list) \<Rightarrow> JSONImporterConfig
     \<Rightarrow> 'c importer \<Rightarrow> string \<times> int \<Rightarrow> import_error + 'c importer" where
  "onLine parse isObject columns runProcConf st line =
     (if length (fst line) = 0 then Inr st
      else case parse (fst line) of
        None \<Rightarrow>
          if \<not> ignoreBadLines runProcConf then Inl (UnableToParseLine (snd line))
          else Inr (st\<lparr>errors := errors st + 1\<rparr>)
      | Some root' \<Rightarrow>
          if \<not> isObject root' then
            if \<not> ignoreBadLines runProcConf then Inl (NotAnObject (snd line))
            else Inr (st\<lparr>errors := errors st + 1\<rparr>)
          else Inr (st\<lparr>recordedLines := recordedLines st + 1,
                       outputDataset := outputDataset st @ [(snd line + 1, columns root')]\<rparr>))"

text \<open>\<open>forEachLineBlock\<close> (not among the sources) calls \<open>onLine\<close> on the lines that
  \<open>offset\<close> and \<open>limit\<close> select; an exception of the callback ends the run.\<close>

fun forEachLine ::
  "('s \<Rightarrow> string \<times> int \<Rightarrow> import_error + 's) \<Rightarrow> (string \<times> int) list \<Rightarrow> 's \<Rightarrow> import_error + 's" where
  "forEachLine f [] st = Inr st"
| "forEachLine f (line # lines) st =
     (case f st line of Inl e \<Rightarrow> Inl e | Inr st' \<Rightarrow> forEachLine f lines st')"

definition import_run ::
  "(string \<Rightarrow> 'j option) \<Rightarrow> ('j \<Rightarrow> bool) \<Rightarrow> ('j \<Rightarrow> 'c list) \<Rightarrow> JSONImporterConfig
     \<Rightarrow> (string \<times> int) list \<Rightarrow> import_error + 'c importer" where
  "import_run parse isObject columns runProcConf lines =
     forEachLine (onLine parse isObject columns runProcConf) lines
       \<lparr>errors = 0, recordedLines = 0, outputDataset = []\<rparr>"

text \<open>A line that cannot be parsed, or whose value is not an object.\<close>

definition bad_line :: "(string \<Rightarrow> 'j option) \<Rightarrow> ('j \<Rightarrow> bool) \<Rightarrow> string \<Rightarrow> bool" where
  "bad_line parse isObject line \<longleftrightarrow>
     (case parse line of None \<Rightarrow> True | Some root' \<Rightarrow> \<not> isObject root')"

section \<open>Scenarios\<close>

text \<open>The two configurations of the specification's scenarios.\<close>

definition touching_config :: buckets where
  "touching_config = [(''a'', (0, 50)), (''b'', (50, 100))]"

definition overlapping_config :: buckets where
  "overlapping_config = [(''a'', (0, 60)), (''b'', (50, 100))]"

text \<open>The scenario of claim C5: 5000 rows, one bucket over all of them, eight workers
  taking the indices in turn.\<close>

definition rows_5000 :: "nat scanned_row list" where
  "rows_5000 = map (\<lambda>i. (i, [])) [0..<5000]"

definition one_bucket :: buckets where
  "one_bucket = [(''all'', (0, 100))]"

definition eight_workers :: "string \<Rightarrow> schedule" where
  "eight_workers name = map (\<lambda>i. (nat i mod 8, i)) [0..4999]"

text \<open>A thread whose batch holds 1023 rows, about to process one more index.\<close>

definition nearly_full :: "nat writer" where
  "nearly_full = \<lparr>accum = [(0, replicate 1023 (7, []))], recorded = []\<rparr>"

definition after_append :: "nat writer" where
  "after_append = \<lparr>accum = [(0, replicate 1023 (7, []) @ [(8, [])])], recorded = []\<rparr>"

text \<open>Two rows, the two touching buckets, one worker.\<close>

definition two_names :: "string list" where
  "two_names = [''r0'', ''r1'']"

definition one_worker :: "string \<Rightarrow> schedule" where
  "one_worker name = (if name = ''a'' then [(0, 0)] else [(0, 1)])"

definition after_first_window :: "string writer" where
  "after_first_window =
     \<lparr>accum = [(0, [(''r0'', [(''bucket'', ''a'', NegativeInfinity)])])], recorded = []\<rparr>"

text \<open>The one batch that holds both rows when the second window is done.\<close>

definition both_rows :: "string batch" where
  "both_rows = [(''r0'', [(''bucket'', ''a'', NegativeInfinity)]),
                (''r1'', [(''bucket'', ''b'', NegativeInfinity)])]"

definition after_second_window :: "string writer" where
  "after_second_window = \<lparr>accum = [(0, both_rows)], recorded = []\<rparr>"

text \<open>Three rows whose order-by values carry the timestamps 10, 30 and 20.\<close>

definition three_rows :: "string scanned_row list" where
  "three_rows = [(''r0'', [Seconds 10]), (''r1'', [Seconds 30]), (''r2'', [Seconds 20])]"

definition three_rows_schedule :: "string \<Rightarrow> schedule" where
  "three_rows_schedule name = (if name = ''a'' then [(0, 0)] else [(1, 2), (0, 1)])"

text \<open>Two scanned rows without timestamps.\<close>

definition two_rows :: "string scanned_row list" where
  "two_rows = [(''r0'', []), (''r1'', [])]"

text \<open>A reader that accepts the texts \<open>{}\<close> and \<open>[]\<close> only and returns the text read, of
  which \<open>{}\<close> is an object; and the default configuration, which does not ignore bad
  lines, with its counterpart that does.\<close>

definition tiny_reader :: "string \<Rightarrow> string option" where
  "tiny_reader line = (if line = ''{}'' \<or> line = ''[]'' then Some line else None)"

definition tiny_isObject :: "string \<Rightarrow> bool" where
  "tiny_isObject v \<longleftrightarrow> v = ''{}''"

definition default_config :: JSONImporterConfig where
  "default_config = \<lparr>limit = - 1, offset = 0, ignoreBadLines = False\<rparr>"

definition lenient_config :: JSONImporterConfig where
  "lenient_config = \<lparr>limit = - 1, offset = 0, ignoreBadLines = True\<rparr>"

definition no_columns :: "string \<Rightarrow> string list" where
  "no_columns root' = []"

definition fresh_importer :: "string importer" where
  "fresh_importer = \<lparr>errors = 0, recordedLines = 0, outputDataset = []\<rparr>"

section \<open>Properties of the validation\<close>

lemma first_failed_check_None: "first_failed_check prev r = None \<longleftrightarrow> range_ok prev r"
  by (auto simp: first_failed_check_def range_ok_def)

lemma checkRanges_Cons:
  "checkRanges prev (r # rs) =
     (case first_failed_check prev r of Some e \<Rightarrow> Some e | None \<Rightarrow> checkRanges r rs)"
  by (auto simp: first_failed_check_def not_le not_less)

lemma prev_from_Suc: "prev_from p (r # rs) (Suc i) = prev_from r rs i"
  by (cases i) (simp_all add: prev_from_def)

lemma checkRanges_None_iff:
  "checkRanges p rs = None \<longleftrightarrow> (\<forall>i<length rs. range_ok (prev_from p rs i) (rs ! i))"
proof (induction rs arbitrary: p)
  case Nil
  show ?case by simp
next
  case (Cons r rs)
  have "(\<forall>i<length (r # rs). range_ok (prev_from p (r # rs) i) ((r # rs) ! i))
        \<longleftrightarrow> range_ok p r \<and> (\<forall>i<length rs. range_ok (prev_from r rs i) (rs ! i))"
    (is "?L \<longleftrightarrow> ?R")
  proof
    assume L: ?L
    have "range_ok (prev_from p (r # rs) 0) ((r # rs) ! 0)" using L by blast
    then have a: "range_ok p r" by (simp add: prev_from_def)
    have "range_ok (prev_from r rs i) (rs ! i)" if "i < length rs" for i
    proof -
      have "range_ok (prev_from p (r # rs) (Suc i)) ((r # rs) ! Suc i)"
        using L that by (metis Suc_less_eq length_Cons)
      then show ?thesis by (simp add: prev_from_Suc)
    qed
    with a show ?R by blast
  next
    assume R: ?R
    show ?L
    proof (intro allI impI)
      fix i assume "i < length (r # rs)"
      then show "range_ok (prev_from p (r # rs) i) ((r # rs) ! i)"
        using R by (cases i) (simp_all add: prev_from_def[of _ _ 0] prev_from_Suc)
    qed
  qed
  moreover have "checkRanges p (r # rs) = None \<longleftrightarrow> range_ok p r \<and> checkRanges r rs = None"
    by (simp only: checkRanges_Cons)
       (auto simp flip: first_failed_check_None split: option.splits)
  ultimately show ?case using Cons.IH by simp
qed

lemma checkRanges_Some_first:
  "checkRanges p rs = Some e \<Longrightarrow>
     \<exists>i<length rs. (\<forall>j<i. range_ok (prev_from p rs j) (rs ! j))
        \<and> first_failed_check (prev_from p rs i) (rs ! i) = Some e"
proof (induction rs arbitrary: p)
  case Nil
  then show ?case by simp
next
  case (Cons r rs)
  show ?case
  proof (cases "first_failed_check p r")
    case (Some e')
    then have "e' = e" using Cons.prems by (simp only: checkRanges_Cons) simp
    then have "first_failed_check (prev_from p (r # rs) 0) ((r # rs) ! 0) = Some e"
      using Some by (simp add: prev_from_def)
    then show ?thesis by (intro exI[of _ 0]) simp
  next
    case None
    then have "checkRanges r rs = Some e"
      using Cons.prems by (simp only: checkRanges_Cons) simp
    from Cons.IH[OF this] obtain i where i: "i < length rs"
      "\<forall>j<i. range_ok (prev_from r rs j) (rs ! j)"
      "first_failed_check (prev_from r rs i) (rs ! i) = Some e" by blast
    have ok0: "range_ok p r" using None by (simp add: first_failed_check_None)
    have "range_ok (prev_from p (r # rs) j) ((r # rs) ! j)" if "j < Suc i" for j
      using that ok0 i(2) by (cases j) (simp_all add: prev_from_def[of _ _ 0] prev_from_Suc)
    moreover have "first_failed_check (prev_from p (r # rs) (Suc i)) ((r # rs) ! Suc i) = Some e"
      using i(3) by (simp add: prev_from_Suc)
    ultimately show ?thesis using i(1) by (intro exI[of _ "Suc i"]) simp
  qed
qed

lemma previous_prev_from: "previous rs i = prev_from sentinel rs i"
  by (simp add: previous_def prev_from_def)

text \<open>\<open>std::sort\<close> leaves the order of ranges with equal lower bounds open. Whether the
  validation fails does not depend on it: an accepted list has strictly increasing lower
  bounds, so it is the only sorted arrangement of its ranges.\<close>

lemma checkRanges_None_Cons:
  "checkRanges p (r # rs) = None \<longleftrightarrow> range_ok p r \<and> checkRanges r rs = None"
  by (simp only: checkRanges_Cons)
     (auto simp flip: first_failed_check_None split: option.splits)

lemma checkRanges_lower_bounds:
  "checkRanges p rs = None \<Longrightarrow> \<forall>x \<in> set rs. snd p \<le> fst x"
proof (induction rs arbitrary: p)
  case Nil
  show ?case by simp
next
  case (Cons r rs)
  from Cons.prems have ok: "range_ok p r" and rest: "checkRanges r rs = None"
    by (simp_all only: checkRanges_None_Cons)
  have "snd p \<le> fst x" if "x \<in> set rs" for x
    using Cons.IH[OF rest] that ok by (fastforce simp: range_ok_def)
  then show ?case using ok by (simp add: range_ok_def)
qed

lemma checkRanges_strictly_sorted:
  "checkRanges p rs = None \<Longrightarrow> sorted_wrt (<) (map fst rs)"
proof (induction rs arbitrary: p)
  case Nil
  show ?case by simp
next
  case (Cons r rs)
  from Cons.prems have ok: "range_ok p r" and rest: "checkRanges r rs = None"
    by (simp_all only: checkRanges_None_Cons)
  have "fst r < fst x" if "x \<in> set rs" for x
    using checkRanges_lower_bounds[OF rest] that ok by (fastforce simp: range_ok_def)
  then show ?case using Cons.IH[OF rest] by simp
qed

lemma sorted_arrangement_unique:
  fixes s s' :: "range list"
  assumes d: "distinct (map fst s)" and so: "sorted (map fst s)"
    and perm: "mset s' = mset s" and sorted: "sorted (map fst s')"
  shows "s' = s"
proof -
  have pk: "mset (map fst s') = mset (map fst s)" using perm by simp
  then have d': "distinct (map fst s')" using d by (metis mset_eq_imp_distinct_iff)
  have "set (map fst s') = set (map fst s)" using pk by (rule mset_eq_setD)
  from sorted_distinct_set_unique[OF sorted d' so d this]
  have keys: "map fst s' = map fst s" .
  have "inj_on fst (set s' \<union> set s)"
    using d mset_eq_setD[OF perm] by (simp add: distinct_map)
  from inj_on_map_eq_map[OF this] keys show ?thesis by simp
qed

lemma accepted_order_unique:
  assumes ok: "checkRanges p s = None"
    and perm: "mset s' = mset s" and sorted: "sorted (map fst s')"
  shows "s' = s"
proof -
  have strict: "sorted_wrt (<) (map fst s)" by (rule checkRanges_strictly_sorted[OF ok])
  then have "distinct (map fst s)" "sorted (map fst s)"
    by (simp_all add: strict_sorted_iff)
  then show ?thesis using perm sorted by (rule sorted_arrangement_unique)
qed

lemma std_sort_sort_key: "std_sort (sort_key fst)"
  by (simp add: std_sort_def)

lemma std_sort_mset: "std_sort sort' \<Longrightarrow> mset (sort' ranges) = mset ranges"
  by (simp add: std_sort_def)

lemma std_sort_sorted: "std_sort sort' \<Longrightarrow> sorted (map fst (sort' ranges))"
  by (simp add: std_sort_def)

lemma std_sort_distinct:
  assumes "std_sort sort'" and "distinct (map fst ranges)" and "sorted (map fst ranges)"
  shows "sort' ranges = ranges"
  using assms(2,3) std_sort_mset[OF assms(1)] std_sort_sorted[OF assms(1)]
  by (rule sorted_arrangement_unique)

lemma accepted_sort_unique:
  assumes "std_sort sort1" and "std_sort sort2"
    and "validateRanges sort1 bs = None"
  shows "sort2 (map snd bs) = sort1 (map snd bs)"
proof -
  have "checkRanges sentinel (sort1 (map snd bs)) = None"
    using assms(3) by (simp add: validateRanges_def)
  moreover have "mset (sort2 (map snd bs)) = mset (sort1 (map snd bs))"
    by (simp add: std_sort_mset[OF assms(1)] std_sort_mset[OF assms(2)])
  ultimately show ?thesis
    using std_sort_sorted[OF assms(2)] by (rule accepted_order_unique)
qed


lemma validation_order_independent:
  assumes "std_sort sort1" and "std_sort sort2"
  shows "is_error (validateRanges sort1 bs) \<longleftrightarrow> is_error (validateRanges sort2 bs)"
proof -
  have "validateRanges sort2 bs = None" if "validateRanges sort1 bs = None"
    using accepted_sort_unique[OF assms that] that by (simp add: validateRanges_def)
  moreover have "validateRanges sort1 bs = None" if "validateRanges sort2 bs = None"
    using accepted_sort_unique[OF assms(2,1) that] that by (simp add: validateRanges_def)
  ultimately show ?thesis
    by (cases "validateRanges sort1 bs"; cases "validateRanges sort2 bs")
       (simp_all add: is_error_def)
qed

lemma sorted_arrangement_independent:
  assumes "std_sort sort'"
    and perm: "mset s' = mset (map snd bs)" and sorted: "sorted (map fst s')"
  shows "is_error (checkRanges sentinel s') \<longleftrightarrow> is_error (validateRanges sort' bs)"
proof -
  define s where "s = sort' (map snd bs)"
  have ms: "mset s = mset (map snd bs)" and ss: "sorted (map fst s)"
    unfolding s_def by (rule std_sort_mset[OF assms(1)], rule std_sort_sorted[OF assms(1)])
  have "s' = s" if "checkRanges sentinel s = None"
    using that _ sorted by (rule accepted_order_unique) (simp add: perm ms)
  moreover have "s = s'" if "checkRanges sentinel s' = None"
    using that _ ss by (rule accepted_order_unique) (simp add: perm ms)
  ultimately show ?thesis
    unfolding is_error_def validateRanges_def s_def[symmetric] by metis
qed

text \<open>
  Claim C3. Whatever order the sort gives to ranges with equal lower bounds: with \<open>s\<close>
  the sorted ranges, validation of the ranges fails if and only if some range of \<open>s\<close>
  violates one of the checks \<open>low \<ge> 0\<close>, \<open>high \<le> 100\<close>, \<open>low < high\<close>,
  \<open>low \<ge> previous.high\<close> (the previous range of the first one being the sentinel
  \<open>(-1, -1)\<close>); the error raised is the first failed check, in that order, of the first such
  range of \<open>s\<close>. The same holds of every arrangement \<open>s'\<close> of the ranges that is sorted
  by lower bound: checking it fails exactly when validation fails, with the first failed check
  of its first violating range; so whether validation fails is the same for every such sort.
  \<open>onPostValidate\<close> fails if and only if the ranges fail or the query check does. Ranges
  that touch are accepted. The overlapping configuration
  \<open>{"a": [0, 60], "b": [50, 100]}\<close> is rejected with the overlap error when the
  configuration is loaded, so the procedure ends before a row is scanned.
\<close>

theorem validation_fails_iff_check_violated:
  fixes percentileBuckets :: buckets
  assumes "std_sort sort'"
  defines "s \<equiv> sort' (map snd percentileBuckets)"
  shows "(is_error (validateRanges sort' percentileBuckets)
            \<longleftrightarrow> (\<exists>i<length s. \<not> range_ok (previous s i) (s ! i)))
       \<and> (is_error (onPostValidate sort' percentileBuckets True)
            \<longleftrightarrow> (\<exists>i<length s. \<not> range_ok (previous s i) (s ! i)))
       \<and> (\<forall>from_ok. is_error (onPostValidate sort' percentileBuckets from_ok)
            \<longleftrightarrow> (\<exists>i<length s. \<not> range_ok (previous s i) (s ! i)) \<or> \<not> from_ok)
       \<and> (\<forall>e. validateRanges sort' percentileBuckets = Some e \<longrightarrow>
            (\<exists>i<length s. (\<forall>j<i. range_ok (previous s j) (s ! j))
                \<and> first_failed_check (previous s i) (s ! i) = Some e))
       \<and> (\<forall>s'. mset s' = mset (map snd percentileBuckets) \<and> sorted (map fst s') \<longrightarrow>
            (is_error (checkRanges sentinel s')
               \<longleftrightarrow> is_error (validateRanges sort' percentileBuckets))
          \<and> (\<forall>e. checkRanges sentinel s' = Some e \<longrightarrow>
               (\<exists>i<length s'. (\<forall>j<i. range_ok (previous s' j) (s' ! j))
                   \<and> first_failed_check (previous s' i) (s' ! i) = Some e)))
       \<and> (\<forall>sort''. std_sort sort'' \<longrightarrow>
            (is_error (validateRanges sort'' percentileBuckets)
               \<longleftrightarrow> is_error (validateRanges sort' percentileBuckets)))
       \<and> (\<forall>l m h. 0 \<le> l \<and> l < m \<and> m < h \<and> h \<le> 100 \<longrightarrow>
            validateRanges sort' [(''a'', (l, m)), (''b'', (m, h))] = None)
       \<and> validateRanges sort' overlapping_config = Some (Overlapping (0, 60) (50, 100))
       \<and> (\<forall>from_ok (rows :: 'r scanned_row list) sched_of.
            bucketize sort' overlapping_config from_ok rows sched_of
              = Inl (Overlapping (0, 60) (50, 100)))"
proof (intro conjI allI impI)
  show v: "is_error (validateRanges sort' percentileBuckets)
          \<longleftrightarrow> (\<exists>i<length s. \<not> range_ok (previous s i) (s ! i))"
    unfolding is_error_def validateRanges_def s_def[symmetric] previous_prev_from
    by (simp add: checkRanges_None_iff[of sentinel s])
  have p: "is_error (onPostValidate sort' percentileBuckets from_ok)
          \<longleftrightarrow> is_error (validateRanges sort' percentileBuckets) \<or> \<not> from_ok" for from_ok
    by (simp add: onPostValidate_def is_error_def split: option.splits)
  show "is_error (onPostValidate sort' percentileBuckets True)
          \<longleftrightarrow> (\<exists>i<length s. \<not> range_ok (previous s i) (s ! i))"
    using v p[of True] by simp
  show "is_error (onPostValidate sort' percentileBuckets from_ok)
          \<longleftrightarrow> (\<exists>i<length s. \<not> range_ok (previous s i) (s ! i)) \<or> \<not> from_ok" for from_ok
    using v p[of from_ok] by simp
next
  fix e assume "validateRanges sort' percentileBuckets = Some e"
  then have "checkRanges sentinel s = Some e"
    by (simp add: validateRanges_def s_def)
  from checkRanges_Some_first[OF this]
  show "\<exists>i<length s. (\<forall>j<i. range_ok (previous s j) (s ! j))
          \<and> first_failed_check (previous s i) (s ! i) = Some e"
    by (simp only: previous_prev_from)
next
  fix s' :: "range list"
  assume a: "mset s' = mset (map snd percentileBuckets) \<and> sorted (map fst s')"
  then show "is_error (checkRanges sentinel s')
               \<longleftrightarrow> is_error (validateRanges sort' percentileBuckets)"
    using assms(1) by (simp add: sorted_arrangement_independent)
  fix e assume "checkRanges sentinel s' = Some e"
  from checkRanges_Some_first[OF this]
  show "\<exists>i<length s'. (\<forall>j<i. range_ok (previous s' j) (s' ! j))
          \<and> first_failed_check (previous s' i) (s' ! i) = Some e"
    by (simp only: previous_prev_from)
next
  fix sort'' assume "std_sort sort''"
  then show "is_error (validateRanges sort'' percentileBuckets)
               \<longleftrightarrow> is_error (validateRanges sort' percentileBuckets)"
    using assms(1) by (rule validation_order_independent)
next
  fix l m h :: rat
  assume a: "0 \<le> l \<and> l < m \<and> m < h \<and> h \<le> 100"
  then have "sort' [(l, m), (m, h)] = [(l, m), (m, h)]"
    by (intro std_sort_distinct[OF assms(1)]) simp_all
  then show "validateRanges sort' [(''a'', (l, m)), (''b'', (m, h))] = None"
    using a by (simp add: validateRanges_def sentinel_def)
next
  have "sort' [(0, 60), (50, 100)] = [(0, 60), (50, 100)]"
    by (intro std_sort_distinct[OF assms(1)]) simp_all
  then show o: "validateRanges sort' overlapping_config = Some (Overlapping (0, 60) (50, 100))"
    by (simp add: validateRanges_def sentinel_def overlapping_config_def)
  fix from_ok and rows :: "'r scanned_row list" and sched_of
  show "bucketize sort' overlapping_config from_ok rows sched_of
          = Inl (Overlapping (0, 60) (50, 100))"
    by (simp add: bucketize_def onPostValidate_def o)
qed

theorem validation_fails_iff_check_violated_witness:
  "std_sort (sort_key fst)
   \<and> is_error (validateRanges (sort_key fst) overlapping_config)
   \<and> (\<exists>i<length (sort_key fst (map snd overlapping_config)).
         \<not> range_ok (previous (sort_key fst (map snd overlapping_config)) i)
              (sort_key fst (map snd overlapping_config) ! i))
   \<and> (0::rat) \<le> 0 \<and> (0::rat) < 50 \<and> (50::rat) < 100 \<and> (100::rat) \<le> 100
   \<and> validateRanges (sort_key fst) touching_config = None"
proof -
  have e: "is_error (validateRanges (sort_key fst) overlapping_config)"
    by (simp add: validateRanges_def sentinel_def is_error_def overlapping_config_def)
  have h: "(0::rat) \<le> 0 \<and> (0::rat) < 50 \<and> (50::rat) < 100 \<and> (100::rat) \<le> 100"
    by simp
  note t = validation_fails_iff_check_violated[OF std_sort_sort_key, of overlapping_config]
  have 1: "\<exists>i<length (sort_key fst (map snd overlapping_config)).
         \<not> range_ok (previous (sort_key fst (map snd overlapping_config)) i)
              (sort_key fst (map snd overlapping_config) ! i)"
    using t e by blast
  have "validateRanges (sort_key fst) [(''a'', (0, 50)), (''b'', (50, 100))] = None"
    using t h by blast
  then have 2: "validateRanges (sort_key fst) touching_config = None"
    by (simp only: touching_config_def)
  show ?thesis using std_sort_sort_key e h 1 2 by blast
qed

section \<open>Properties of the rounding\<close>

lemma rhe_cases:
  "(round_half_even q = \<lfloor>q\<rfloor> \<and> q - of_int \<lfloor>q\<rfloor> \<le> 1 / 2)
   \<or> (round_half_even q = \<lfloor>q\<rfloor> + 1 \<and> q - of_int \<lfloor>q\<rfloor> \<ge> 1 / 2)"
  unfolding round_half_even_def Let_def by auto

lemma rhe_nearest: "\<bar>of_int (round_half_even q) - q\<bar> \<le> \<bar>of_int j - q\<bar>"
proof -
  define f where "f = \<lfloor>q\<rfloor>"
  have b: "of_int f \<le> q" "q < of_int f + 1" unfolding f_def by linarith+
  have "j \<le> f \<or> j \<ge> f + 1" by linarith
  then have j: "(of_int j :: rat) \<le> of_int f \<or> (of_int j :: rat) \<ge> of_int f + 1"
    by (metis of_int_le_iff of_int_add of_int_1)
  from rhe_cases[of q]
  have r: "(of_int (round_half_even q) = (of_int f :: rat) \<and> q - of_int f \<le> 1 / 2)
     \<or> (of_int (round_half_even q) = (of_int f :: rat) + 1 \<and> q - of_int f \<ge> 1 / 2)"
    unfolding f_def by auto
  show ?thesis using b j r by linarith
qed

lemma rhe_half: "\<bar>of_int (round_half_even q) - q\<bar> \<le> 1 / 2"
proof -
  define f where "f = \<lfloor>q\<rfloor>"
  have b: "of_int f \<le> q" "q < of_int f + 1" unfolding f_def by linarith+
  from rhe_cases[of q]
  have r: "(of_int (round_half_even q) = (of_int f :: rat) \<and> q - of_int f \<le> 1 / 2)
     \<or> (of_int (round_half_even q) = (of_int f :: rat) + 1 \<and> q - of_int f \<ge> 1 / 2)"
    unfolding f_def by auto
  show ?thesis using b r by linarith
qed

lemma rhe_of_int [simp]: "round_half_even (of_int n) = n"
  by (simp add: round_half_even_def)

lemma ilog2_bounds:
  assumes "0 < x"
  shows "2 powi ilog2 x \<le> x" "x < 2 powi (ilog2 x + 1)"
proof -
  define p where "p = fst (quotient_of x)"
  define q where "q = snd (quotient_of x)"
  have q: "q > 0" unfolding q_def by (rule quotient_of_denom_pos')
  have x: "x = of_int p / of_int q"
    unfolding p_def q_def by (metis quotient_of_div prod.collapse)
  have p: "p > 0" using assms q unfolding x by (simp add: zero_less_divide_iff)
  define k where "k = bitlen p - bitlen q"
  note bp = bitlen_bounds[OF p] and bq = bitlen_bounds[OF q]
  have bpos: "bitlen p \<ge> 1" "bitlen q \<ge> 1"
    using p q by (auto simp: bitlen_alt_def)
  have P1: "(2::rat) powi (bitlen p - 1) \<le> of_int p"
  proof -
    have "(of_int (2 ^ nat (bitlen p - 1)) :: rat) \<le> of_int p"
      using bp by (simp only: of_int_le_iff)
    then show ?thesis using bpos by (simp add: power_int_def)
  qed
  have P2: "of_int p < (2::rat) powi (bitlen p)"
  proof -
    have "(of_int p :: rat) < of_int (2 ^ nat (bitlen p))"
      using bp by (simp only: of_int_less_iff)
    then show ?thesis using bpos by (simp add: power_int_def)
  qed
  have Q1: "(2::rat) powi (bitlen q - 1) \<le> of_int q"
  proof -
    have "(of_int (2 ^ nat (bitlen q - 1)) :: rat) \<le> of_int q"
      using bq by (simp only: of_int_le_iff)
    then show ?thesis using bpos by (simp add: power_int_def)
  qed
  have Q2: "of_int q < (2::rat) powi (bitlen q)"
  proof -
    have "(of_int q :: rat) < of_int (2 ^ nat (bitlen q))"
      using bq by (simp only: of_int_less_iff)
    then show ?thesis using bpos by (simp add: power_int_def)
  qed
  have qr: "(0::rat) < of_int q" using q by simp
  have pr: "(0::rat) < of_int p" using p by simp
  have pos: "\<And>n. (0::rat) < 2 powi n" by simp
  have lo: "2 powi (k - 1) < x"
  proof -
    have "(2::rat) powi (k - 1) = 2 powi (bitlen p - 1) / 2 powi (bitlen q)"
      unfolding k_def by (subst power_int_diff[symmetric]) (simp_all add: algebra_simps)
    also have "\<dots> < of_int p / of_int q"
    proof -
      have "(2::rat) powi (bitlen p - 1) * of_int q < 2 powi (bitlen p - 1) * 2 powi (bitlen q)"
        using Q2 pos by (simp only: mult_less_cancel_left_pos)
      also have "\<dots> \<le> of_int p * 2 powi (bitlen q)"
        using P1 pos by (simp only: mult_le_cancel_right_pos)
      finally show ?thesis using qr pos by (simp add: field_simps)
    qed
    finally show ?thesis unfolding x .
  qed
  have hi: "x < 2 powi (k + 1)"
  proof -
    have "of_int p / of_int q < (2::rat) powi (bitlen p) / 2 powi (bitlen q - 1)"
    proof -
      have "of_int p * (2::rat) powi (bitlen q - 1) < 2 powi (bitlen p) * 2 powi (bitlen q - 1)"
        using P2 pos by (simp only: mult_less_cancel_right_pos)
      also have "\<dots> \<le> 2 powi (bitlen p) * of_int q"
        using Q1 pos by (simp only: mult_le_cancel_left_pos)
      finally show ?thesis using qr pos by (simp add: field_simps)
    qed
    also have "\<dots> = 2 powi (k + 1)"
      unfolding k_def by (subst power_int_diff[symmetric]) (simp_all add: algebra_simps)
    finally show ?thesis unfolding x .
  qed
  have il: "ilog2 x = (if 2 powi k \<le> x then k else k - 1)"
    unfolding ilog2_def k_def p_def q_def Let_def ..
  show "2 powi ilog2 x \<le> x" using lo unfolding il by auto
  show "x < 2 powi (ilog2 x + 1)" using hi unfolding il by auto
qed

lemma two_powi_pos [simp]: "(0::rat) < 2 powi n"
  by simp

lemma two_powi_mono: "m \<le> n \<Longrightarrow> (2::rat) powi m \<le> 2 powi n"
  by (rule power_int_increasing) simp_all

lemma two_powi_add: "(2::rat) powi (m + n) = 2 powi m * 2 powi n"
  by (rule power_int_add) simp

lemma scaled_abs: "0 < s \<Longrightarrow> \<bar>a * s - b * s\<bar> = s * \<bar>a - b\<bar>" for s :: rat
proof -
  assume "0 < s"
  have "a * s - b * s = s * (a - b)" by (simp add: algebra_simps)
  then show ?thesis using \<open>0 < s\<close> by (simp add: abs_mult)
qed

text \<open>The scaled significand before rounding lies within 24 bits.\<close>

lemma scaled_bound:
  assumes "x \<noteq> 0"
  shows "\<bar>x / 2 powi ulp_exp x\<bar> < 2 ^ 24"
proof -
  have ax: "0 < \<bar>x\<bar>" using assms by simp
  have "\<bar>x\<bar> < 2 powi (ilog2 \<bar>x\<bar> + 1)" by (rule ilog2_bounds(2)[OF ax])
  also have "\<dots> = 2 powi (ilog2 \<bar>x\<bar> - 23) * 2 ^ 24"
  proof -
    have "ilog2 \<bar>x\<bar> + 1 = (ilog2 \<bar>x\<bar> - 23) + 24" by simp
    then show ?thesis by (simp only: two_powi_add) simp
  qed
  also have "\<dots> \<le> 2 powi ulp_exp x * 2 ^ 24"
    by (simp add: ulp_exp_def two_powi_mono)
  finally have "\<bar>x\<bar> / 2 powi ulp_exp x < 2 ^ 24"
    by (simp add: field_simps)
  then show ?thesis by simp
qed

lemma rhe_bound:
  assumes "\<bar>q\<bar> < of_int B"
  shows "\<bar>round_half_even q\<bar> \<le> B"
proof -
  have 1: "\<bar>of_int (round_half_even q) - q\<bar> \<le> \<bar>of_int B - q\<bar>" by (rule rhe_nearest)
  have 2: "\<bar>of_int (round_half_even q) - q\<bar> \<le> \<bar>- of_int B - q\<bar>"
    using rhe_nearest[of q "- B"] by simp
  have "\<bar>(of_int (round_half_even q) :: rat)\<bar> \<le> of_int B"
    using 1 2 assms by linarith
  then show ?thesis by (metis of_int_abs of_int_le_iff)
qed

lemma float_round_form:
  assumes "x \<noteq> 0"
  shows "float_round x = of_int (round_half_even (x / 2 powi ulp_exp x)) * 2 powi ulp_exp x"
    and "\<bar>round_half_even (x / 2 powi ulp_exp x)\<bar> \<le> 2 ^ 24"
    and "- 149 \<le> ulp_exp x"
proof -
  show "float_round x = of_int (round_half_even (x / 2 powi ulp_exp x)) * 2 powi ulp_exp x"
    using assms by (simp add: float_round_def)
  have "\<bar>x / 2 powi ulp_exp x\<bar> < of_int (2 ^ 24)"
    using scaled_bound[OF assms] by simp
  then show "\<bar>round_half_even (x / 2 powi ulp_exp x)\<bar> \<le> 2 ^ 24"
    by (rule rhe_bound)
  show "- 149 \<le> ulp_exp x" by (simp add: ulp_exp_def)
qed

lemma float_round_representable:
  "\<exists>m e. \<bar>m\<bar> < 2 ^ 24 \<and> - 149 \<le> e \<and> float_round x = of_int m * 2 powi e"
proof (cases "x = 0")
  case True
  have "\<bar>0::int\<bar> < 2 ^ 24 \<and> - 149 \<le> (0::int) \<and> float_round x = of_int 0 * 2 powi 0"
    using True by (simp add: float_round_def)
  then show ?thesis by blast
next
  case False
  define e where "e = ulp_exp x"
  define n where "n = round_half_even (x / 2 powi e)"
  note f = float_round_form[OF False, folded e_def, folded n_def]
  show ?thesis
  proof (cases "\<bar>n\<bar> < 2 ^ 24")
    case True
    then show ?thesis using f by blast
  next
    case False
    then have "n = 2 ^ 24 \<or> n = - (2 ^ 24)" using f(2) by linarith
    then have "float_round x = of_int (n div 2) * 2 powi (e + 1) \<and> \<bar>n div 2\<bar> < 2 ^ 24"
      using f(1) by (auto simp: two_powi_add)
    moreover have "- 149 \<le> e + 1" using f(3) by simp
    ultimately show ?thesis by blast
  qed
qed

lemma float_round_nearest:
  assumes m: "\<bar>m\<bar> < 2 ^ 24" and e': "- 149 \<le> e'"
  shows "\<bar>float_round x - x\<bar> \<le> \<bar>of_int m * 2 powi e' - x\<bar>"
proof (cases "x = 0")
  case True
  then show ?thesis by (simp add: float_round_def)
next
  case False
  define e where "e = ulp_exp x"
  define s :: rat where "s = 2 powi e"
  define q where "q = x / s"
  define n where "n = round_half_even q"
  define t where "t = of_int m * 2 powi e' / s"
  have s: "0 < s" by (simp add: s_def)
  have x: "x = q * s" using s by (simp add: q_def)
  have g: "of_int m * 2 powi e' = t * s" using s by (simp add: t_def)
  have fr: "float_round x = of_int n * s"
    using float_round_form(1)[OF False] by (simp add: n_def q_def s_def e_def)
  have "\<bar>of_int n - q\<bar> \<le> \<bar>t - q\<bar>"
  proof (cases "e \<le> e'")
    case True
    define j where "j = m * 2 ^ nat (e' - e)"
    have "(2::rat) powi e' = 2 powi (e' - e) * 2 powi e"
      by (simp flip: two_powi_add)
    also have "(2::rat) powi (e' - e) = 2 ^ nat (e' - e)"
      using True by (simp add: power_int_def)
    finally have "t = of_int j"
      using s by (simp add: t_def j_def s_def)
    then show ?thesis unfolding n_def by (simp add: rhe_nearest)
  next
    case False
    then have lt: "e' < e" by simp
    then have "- 149 < e" using e' by simp
    then have e_eq: "e = ilog2 \<bar>x\<bar> - 23" by (simp add: e_def ulp_exp_def max_def split: if_splits)
    have ax: "0 < \<bar>x\<bar>" using \<open>x \<noteq> 0\<close> by simp
    have "2 powi (e + 23) \<le> \<bar>x\<bar>"
      using ilog2_bounds(1)[OF ax] by (simp add: e_eq)
    then have "2 ^ 23 * s \<le> \<bar>x\<bar>"
      by (simp add: two_powi_add s_def mult.commute)
    then have qb: "2 ^ 23 \<le> \<bar>q\<bar>"
      using s by (simp add: q_def field_simps)
    have "\<bar>of_int m * 2 powi e'\<bar> = \<bar>of_int m :: rat\<bar> * 2 powi e'"
      by (simp add: abs_mult)
    also have "\<dots> < 2 ^ 24 * 2 powi e'"
    proof -
      have "\<bar>(of_int m :: rat)\<bar> < of_int (2 ^ 24)"
        using m by (metis of_int_abs of_int_less_iff)
      then show ?thesis by simp
    qed
    also have "\<dots> \<le> 2 ^ 24 * 2 powi (e - 1)"
      using lt by (simp add: two_powi_mono)
    also have "\<dots> = 2 ^ 23 * s"
    proof -
      have "(2::rat) powi e = 2 powi (e - 1) * 2 powi 1"
        using two_powi_add[of "e - 1" 1] by simp
      then show ?thesis by (simp add: s_def)
    qed
    finally have tb: "\<bar>t\<bar> < 2 ^ 23"
      using s by (simp add: t_def field_simps)
    define j :: int where "j = (if 0 < q then 2 ^ 23 else - (2 ^ 23))"
    have "\<bar>of_int n - q\<bar> \<le> \<bar>of_int j - q\<bar>" unfolding n_def by (rule rhe_nearest)
    also have "\<dots> \<le> \<bar>t - q\<bar>"
      using qb tb by (auto simp: j_def abs_if split: if_splits)
    finally show ?thesis .
  qed
  then have "s * \<bar>of_int n - q\<bar> \<le> s * \<bar>t - q\<bar>"
    using s by simp
  then have "\<bar>of_int n * s - q * s\<bar> \<le> \<bar>t * s - q * s\<bar>"
    by (simp only: scaled_abs[OF s])
  then have "\<bar>of_int n * s - x\<bar> \<le> \<bar>t * s - x\<bar>"
    by (simp only: x[symmetric])
  then show ?thesis
    by (simp only: fr g)
qed

lemma float_round_0 [simp]: "float_round 0 = 0"
  by (simp add: float_round_def)

lemma float_round_id:
  assumes "\<bar>m\<bar> < 2 ^ 24" and "- 149 \<le> e"
  shows "float_round (of_int m * 2 powi e) = of_int m * 2 powi e"
  using float_round_nearest[OF assms, of "of_int m * 2 powi e"] by simp

lemma is_float_iff:
  "is_float x \<longleftrightarrow> (\<exists>m e. \<bar>m\<bar> < 2 ^ 24 \<and> - 149 \<le> e \<and> x = of_int m * 2 powi e)"
proof
  assume "is_float x"
  then have "float_round x = x" by (simp add: is_float_def)
  then show "\<exists>m e. \<bar>m\<bar> < 2 ^ 24 \<and> - 149 \<le> e \<and> x = of_int m * 2 powi e"
    using float_round_representable[of x] by simp
next
  assume "\<exists>m e. \<bar>m\<bar> < 2 ^ 24 \<and> - 149 \<le> e \<and> x = of_int m * 2 powi e"
  then show "is_float x"
    unfolding is_float_def using float_round_id by blast
qed

lemma is_float_round [simp]: "is_float (float_round x)"
  using float_round_representable[of x] by (simp only: is_float_iff)

lemma float_round_closest:
  assumes "is_float g"
  shows "\<bar>float_round x - x\<bar> \<le> \<bar>g - x\<bar>"
  using assms float_round_nearest unfolding is_float_iff by blast

lemma float_round_mono:
  assumes "x \<le> y"
  shows "float_round x \<le> float_round y"
proof (rule ccontr)
  assume "\<not> float_round x \<le> float_round y"
  then have gt: "float_round y < float_round x" by simp
  then have ne: "x < y" using assms by (cases "x = y") auto
  have 1: "\<bar>float_round x - x\<bar> \<le> \<bar>float_round y - x\<bar>"
    by (rule float_round_closest) simp
  have 2: "\<bar>float_round y - y\<bar> \<le> \<bar>float_round x - y\<bar>"
    by (rule float_round_closest) simp
  show False using gt ne 1 2 by linarith
qed

lemma float_round_nonneg: "0 \<le> x \<Longrightarrow> 0 \<le> float_round x"
  using float_round_mono[of 0 x] by simp

lemma float_round_is_float: "is_float x \<Longrightarrow> float_round x = x"
  by (simp add: is_float_def)

lemma is_float_of_int: "\<bar>m\<bar> < 2 ^ 24 \<Longrightarrow> is_float (of_int m)"
proof -
  assume "\<bar>m\<bar> < 2 ^ 24"
  then have "\<bar>m\<bar> < 2 ^ 24 \<and> - 149 \<le> (0::int) \<and> (of_int m :: rat) = of_int m * 2 powi 0"
    by simp
  then show ?thesis unfolding is_float_iff by blast
qed

text \<open>The largest single-precision value below 100 is \<open>100 - 2\<^sup>-\<^sup>1\<^sup>7\<close>.\<close>

lemma float_below_100:
  assumes f: "is_float p" and lt: "p < 100"
  shows "p \<le> 100 - 1 / 2 ^ 17"
proof -
  from f obtain m e where m: "\<bar>m\<bar> < 2 ^ 24" and e: "- 149 \<le> e"
    and p: "p = of_int m * 2 powi e" unfolding is_float_iff by blast
  show ?thesis
  proof (cases "- 17 \<le> e")
    case True
    define j where "j = m * 2 ^ nat (e + 17)"
    have "(2::rat) powi (e + 17) = 2 ^ nat (e + 17)"
      using True by (simp add: power_int_def)
    then have "p * 2 ^ 17 = of_int j"
      unfolding p j_def by (simp add: two_powi_add)
    moreover have "p * 2 ^ 17 < of_int (100 * 2 ^ 17)" using lt by simp
    ultimately have "(of_int j :: rat) < of_int (100 * 2 ^ 17)" by simp
    then have "j < 100 * 2 ^ 17" by (simp only: of_int_less_iff)
    then have "j \<le> 100 * 2 ^ 17 - 1" by simp
    then have "(of_int j :: rat) \<le> of_int (100 * 2 ^ 17 - 1)" by (simp only: of_int_le_iff)
    then have "p * 2 ^ 17 \<le> 100 * 2 ^ 17 - 1"
      using \<open>p * 2 ^ 17 = of_int j\<close> by simp
    then show ?thesis by (simp add: field_simps)
  next
    case False
    then have "e \<le> - 18" by simp
    have "p \<le> \<bar>of_int m :: rat\<bar> * 2 powi e"
      unfolding p by (simp add: mult_right_mono)
    also have "\<dots> \<le> 2 ^ 24 * 2 powi e"
    proof -
      have "\<bar>(of_int m :: rat)\<bar> \<le> of_int (2 ^ 24)"
        using m by (metis of_int_abs of_int_le_iff less_imp_le)
      then show ?thesis by simp
    qed
    also have "\<dots> \<le> 2 ^ 24 * 2 powi (- 18)"
      by (rule mult_left_mono[OF two_powi_mono[OF \<open>e \<le> - 18\<close>]]) simp
    also have "\<dots> = 64" by (simp add: power_int_minus)
    finally show ?thesis by simp
  qed
qed

lemma is_float_below_one: "is_float below_one"
proof -
  have "\<bar>2 ^ 24 - 1 :: int\<bar> < 2 ^ 24 \<and> - 149 \<le> (- 24 :: int)
      \<and> below_one = of_int (2 ^ 24 - 1) * 2 powi (- 24)"
    by (simp add: below_one_def power_int_minus field_simps)
  then show ?thesis unfolding is_float_iff by blast
qed

lemma float_div_100_below_one:
  assumes "is_float p" and "p < 100"
  shows "float_round (p / 100) \<le> below_one"
proof -
  have "p / 100 \<le> below_one"
    using float_below_100[OF assms] by (simp add: below_one_def)
  then have "float_round (p / 100) \<le> float_round below_one"
    by (rule float_round_mono)
  then show ?thesis by (simp add: float_round_is_float[OF is_float_below_one])
qed

text \<open>A value of at least 1 that is a float has a 24-bit integer significand at its own
  unit in the last place.\<close>

lemma normal_form:
  assumes f: "is_float X" and X: "1 \<le> X"
  obtains n e where "X = of_int n * 2 powi e" "2 ^ 23 \<le> n" "n < 2 ^ 24" "- 23 \<le> e"
proof -
  have pos: "0 < X" "X \<noteq> 0" using X by simp_all
  have ax: "\<bar>X\<bar> = X" using X by simp
  define k where "k = ilog2 X"
  have k1: "2 powi k \<le> X" and k2: "X < 2 powi (k + 1)"
    unfolding k_def using ilog2_bounds[OF pos(1)] by simp_all
  have "(2::rat) powi 0 < 2 powi (k + 1)" using X k2 by simp
  then have "0 < k + 1" using two_powi_mono[of "k + 1" 0] by (cases "0 < k + 1") auto
  then have k0: "0 \<le> k" by simp
  define e where "e = k - 23"
  have ue: "ulp_exp X = e" using k0 by (simp add: ulp_exp_def ax k_def e_def)
  define s :: rat where "s = 2 powi e"
  have s: "0 < s" by (simp add: s_def)
  define n where "n = round_half_even (X / s)"
  have "float_round X = of_int n * s"
    using float_round_form(1)[OF pos(2)] by (simp add: ue n_def s_def)
  then have Xn: "X = of_int n * s" using f by (simp add: is_float_def)
  have "2 powi k = 2 ^ 23 * s" "2 powi (k + 1) = 2 ^ 24 * s"
    using two_powi_add[of e 23] two_powi_add[of e 24]
    by (simp_all add: e_def s_def add.commute mult.commute)
  then have "2 ^ 23 * s \<le> of_int n * s" "of_int n * s < 2 ^ 24 * s"
    using k1 k2 Xn by simp_all
  then have "(of_int (2 ^ 23) :: rat) \<le> of_int n" "(of_int n :: rat) < of_int (2 ^ 24)"
    using s by simp_all
  then have "2 ^ 23 \<le> n" "n < 2 ^ 24" by (simp_all only: of_int_le_iff of_int_less_iff)
  moreover have "- 23 \<le> e" using k0 by (simp add: e_def)
  ultimately show ?thesis using that Xn unfolding s_def by blast
qed

text \<open>Multiplying a float by the largest float below 1 and rounding gives a smaller float.\<close>

lemma mul_below_one_less:
  assumes f: "is_float X" and X: "1 \<le> X"
  shows "float_round (below_one * X) < X"
proof -
  from normal_form[OF f X] obtain n e where
    Xn: "X = of_int n * 2 powi e" and n1: "2 ^ 23 \<le> n" and n2: "n < 2 ^ 24" and e: "- 23 \<le> e"
    by blast
  define s :: rat where "s = 2 powi e"
  have s: "0 < s" by (simp add: s_def)
  define y where "y = below_one * X"
  have y: "y = X - X / 2 ^ 24" by (simp add: y_def below_one_def algebra_simps)
  show ?thesis
  proof (cases "n = 2 ^ 23")
    case True
    have "y = of_int (2 ^ 24 - 1) * 2 powi (e - 1)"
    proof -
      have "(2::rat) powi e = 2 powi (e - 1) * 2" using two_powi_add[of "e - 1" 1] by simp
      then show ?thesis unfolding y Xn True by (simp add: field_simps)
    qed
    moreover have "\<bar>2 ^ 24 - 1 :: int\<bar> < 2 ^ 24" "- 149 \<le> e - 1" using e by simp_all
    ultimately have "is_float y" unfolding is_float_iff by blast
    then have "float_round y = y" by (rule float_round_is_float)
    moreover have "y < X" using X unfolding y by simp
    ultimately show ?thesis unfolding y_def by simp
  next
    case False
    then have n3: "2 ^ 23 + 1 \<le> n" using n1 by simp
    have n4: "n \<le> 2 ^ 24 - 1" using n2 by simp
    have "(of_int (2 ^ 23 + 1) :: rat) \<le> of_int n" "(of_int n :: rat) \<le> of_int (2 ^ 24 - 1)"
      using n3 n4 by (simp_all only: of_int_le_iff)
    then have "of_int (2 ^ 23 + 1) * s \<le> of_int n * s" "of_int n * s \<le> of_int (2 ^ 24 - 1) * s"
      using s by (simp_all only: mult_le_cancel_right_pos)
    then have w: "(2 ^ 23 + 1) * s \<le> X" "X \<le> (2 ^ 24 - 1) * s"
      unfolding Xn s_def by simp_all
    have "\<bar>n - 1\<bar> < 2 ^ 24" "- 149 \<le> e" using n1 n2 e by simp_all
    then have "\<bar>float_round y - y\<bar> \<le> \<bar>of_int (n - 1) * 2 powi e - y\<bar>"
      by (rule float_round_nearest)
    moreover have "of_int (n - 1) * 2 powi e = X - s"
      unfolding Xn s_def by (simp add: algebra_simps)
    ultimately have "\<bar>float_round y - y\<bar> \<le> \<bar>X - s - y\<bar>" by simp
    then have "float_round y < X"
      using w s unfolding y by (simp add: field_simps)
    then show ?thesis unfolding y_def .
  qed
qed

text \<open>The product of a percentage fraction below 1 with the converted row count, rounded,
  never exceeds the row count.\<close>

lemma scaled_count_le:
  assumes p: "is_float p" "0 \<le> p" "p < 100" and N: "0 \<le> N"
  shows "float_round (float_round (p / 100) * float_round (of_int N)) \<le> of_int N"
proof -
  define X where "X = float_round (of_int N)"
  define c where "c = float_round (p / 100)"
  have X0: "0 \<le> X" unfolding X_def using N by (simp add: float_round_nonneg)
  have fX: "is_float X" unfolding X_def by simp
  have c1: "c \<le> below_one" unfolding c_def by (rule float_div_100_below_one[OF p(1,3)])
  have "c * X \<le> below_one * X" using c1 X0 by (rule mult_right_mono)
  then have le: "float_round (c * X) \<le> float_round (below_one * X)"
    by (rule float_round_mono)
  have "float_round (below_one * X) \<le> of_int N"
  proof (cases "X \<le> of_int N")
    case True
    have "below_one * X \<le> X" using X0 by (simp add: below_one_def algebra_simps)
    then have "float_round (below_one * X) \<le> float_round X" by (rule float_round_mono)
    then show ?thesis using True float_round_is_float[OF fX] by simp
  next
    case False
    then have gt: "of_int N < X" by simp
    have "(0::rat) \<le> of_int N" using N by simp
    have "N \<noteq> 0" using gt unfolding X_def by auto
    then have "1 \<le> N" using N by simp
    then have "(1::rat) \<le> of_int N" by simp
    then have X1: "1 \<le> X" using gt by simp
    define r where "r = float_round (below_one * X)"
    have rX: "r < X" unfolding r_def by (rule mul_below_one_less[OF fX X1])
    have "is_float r" unfolding r_def by simp
    then have "\<bar>float_round (of_int N) - of_int N\<bar> \<le> \<bar>r - of_int N\<bar>"
      by (rule float_round_closest)
    then have "r \<le> of_int N" using rX gt unfolding X_def[symmetric] by linarith
    then show ?thesis unfolding r_def .
  qed
  with le show ?thesis unfolding c_def X_def by simp
qed

section \<open>Properties of the percentile window\<close>

lemma int64_of_float_nonneg: "0 \<le> x \<Longrightarrow> int64_of_float x = \<lfloor>x\<rfloor>"
  by (simp add: int64_of_float_def)

lemma scaled_nonneg:
  "0 \<le> p \<Longrightarrow> 0 \<le> N \<Longrightarrow> 0 \<le> float_mul (float_div p 100) (float_of_int64 N)"
  unfolding float_mul_def float_div_def float_of_int64_def
  by (intro float_round_nonneg mult_nonneg_nonneg) simp_all

lemma scaled_mono:
  assumes "p \<le> p'" and "0 \<le> N"
  shows "float_mul (float_div p 100) (float_of_int64 N)
           \<le> float_mul (float_div p' 100) (float_of_int64 N)"
proof -
  have "float_round (p / 100) \<le> float_round (p' / 100)"
    using assms(1) by (intro float_round_mono) simp
  moreover have "0 \<le> float_round (of_int N)"
    using assms(2) by (intro float_round_nonneg) simp
  ultimately have "float_round (p / 100) * float_round (of_int N)
      \<le> float_round (p' / 100) * float_round (of_int N)"
    by (rule mult_right_mono)
  then show ?thesis
    unfolding float_mul_def float_div_def float_of_int64_def
    by (rule float_round_mono)
qed

lemma scaled_zero: "float_mul (float_div 0 100) (float_of_int64 N) = 0"
  by (simp add: float_mul_def float_div_def)

lemma scaled_le_count:
  assumes "is_float p" "0 \<le> p" "p < 100" "0 \<le> N"
  shows "float_mul (float_div p 100) (float_of_int64 N) \<le> of_int N"
  unfolding float_mul_def float_div_def float_of_int64_def
  by (rule scaled_count_le[OF assms])

lemma lowerBound_validated:
  assumes "validated (low, high)"
  shows "lowerBound (low, high) N
           = int64_of_float (float_mul (float_div low 100) (float_of_int64 N))"
  using assms by (auto simp: validated_def lowerBound_def)

lemma lowerBound_floor:
  assumes "validated (low, high)" "0 \<le> N"
  shows "lowerBound (low, high) N = \<lfloor>float_mul (float_div low 100) (float_of_int64 N)\<rfloor>"
proof -
  have "0 \<le> low" using assms(1) by (simp add: validated_def)
  then show ?thesis
    by (simp add: lowerBound_validated[OF assms(1)] int64_of_float_nonneg scaled_nonneg assms(2))
qed

lemma higherBound_floor:
  assumes "validated (low, high)" "0 \<le> N"
  shows "higherBound (low, high) N
     = (if high = 100 then N else \<lfloor>float_mul (float_div high 100) (float_of_int64 N)\<rfloor>)"
proof -
  have "0 \<le> high" using assms(1) by (simp add: validated_def)
  then show ?thesis
    by (simp add: higherBound_def int64_of_float_nonneg scaled_nonneg assms(2))
qed

lemma lowerBound_nonneg:
  assumes "validated (low, high)" "0 \<le> N"
  shows "0 \<le> lowerBound (low, high) N"
proof -
  have "0 \<le> low" using assms(1) by (simp add: validated_def)
  then show ?thesis
    unfolding lowerBound_floor[OF assms] using scaled_nonneg[OF _ assms(2)] by simp
qed

lemma floor_scaled_le_count:
  assumes "is_float p" "0 \<le> p" "p < 100" "0 \<le> N"
  shows "\<lfloor>float_mul (float_div p 100) (float_of_int64 N)\<rfloor> \<le> N"
proof -
  have "\<lfloor>float_mul (float_div p 100) (float_of_int64 N)\<rfloor> \<le> \<lfloor>(of_int N :: rat)\<rfloor>"
    by (rule floor_mono[OF scaled_le_count[OF assms]])
  then show ?thesis by simp
qed

lemma higherBound_le_count:
  assumes "validated (low, high)" "0 \<le> N"
  shows "higherBound (low, high) N \<le> N"
proof (cases "high = 100")
  case True
  then show ?thesis by (simp add: higherBound_def)
next
  case False
  then have "is_float high" "0 \<le> high" "high < 100"
    using assms(1) by (simp_all add: validated_def)
  from floor_scaled_le_count[OF this assms(2)] show ?thesis
    unfolding higherBound_floor[OF assms] using False by simp
qed

lemma lowerBound_le_higherBound:
  assumes "validated (low, high)" "0 \<le> N"
  shows "lowerBound (low, high) N \<le> higherBound (low, high) N"
proof (cases "high = 100")
  case True
  have "is_float low" "0 \<le> low" "low < 100"
    using assms(1) True by (simp_all add: validated_def)
  from floor_scaled_le_count[OF this assms(2)] show ?thesis
    unfolding lowerBound_floor[OF assms] using True by (simp add: higherBound_def)
next
  case False
  have "low \<le> high" using assms(1) by (simp add: validated_def)
  from scaled_mono[OF this assms(2)] show ?thesis
    unfolding lowerBound_floor[OF assms] higherBound_floor[OF assms] using False
    by (simp add: floor_mono)
qed

lemma is_float_0: "is_float 0"
  by (simp add: is_float_def)

lemma is_float_50: "is_float 50"
  using is_float_of_int[of 50] by simp

lemma is_float_100: "is_float 100"
  using is_float_of_int[of 100] by simp

lemma validated_0_100: "validated (0, 100)"
  by (simp add: validated_def is_float_0 is_float_100)

lemma validated_0_50: "validated (0, 50)"
  by (simp add: validated_def is_float_0 is_float_50)

lemma validated_50_100: "validated (50, 100)"
  by (simp add: validated_def is_float_50 is_float_100)

text \<open>
  Claim C1, as stated with the exact quotient: it fails for 100 rows and the validated
  ranges \<open>(0, 53)\<close> and \<open>(53, 100)\<close>, where the code computes the index 52 for 53 percent
  and the exact rule gives 53.
\<close>

theorem exact_rule_counterexample:
  "validated (0, 53) \<and> (0::int) \<le> 100
   \<and> higherBound (0, 53) 100 = 52 \<and> exact_hiIdx 53 100 = 53
   \<and> validated (53, 100) \<and> lowerBound (53, 100) 100 = 52 \<and> exact_loIdx 53 100 = 53"
proof -
  have "is_float 53" using is_float_of_int[of 53] by simp
  then have "validated (0, 53)" "validated (53, 100)"
    by (simp_all add: validated_def is_float_0 is_float_100)
  moreover have "higherBound (0, 53) 100 = 52" by code_simp
  moreover have "lowerBound (53, 100) 100 = 52" by code_simp
  moreover have "exact_hiIdx 53 100 = 53" by (simp add: exact_hiIdx_def)
  moreover have "exact_loIdx 53 100 = 53" by (simp add: exact_loIdx_def)
  ultimately show ?thesis by simp
qed

text \<open>
  Claim C1, amended. For every validated range and every row count, the lower index is 0
  if \<open>low = 0\<close> and otherwise the floor of \<open>low / 100 * N\<close> evaluated in single precision
  (quotient and product each rounded to the nearest float); the upper index is \<open>N\<close> if
  \<open>high = 100\<close> and otherwise the same single-precision value for \<open>high\<close>. The range
  \<open>(0, 100)\<close> maps to exactly \<open>[0, N)\<close>.
\<close>

theorem window_single_precision:
  assumes "validated (low, high)" and "0 \<le> N" and "N < 2 ^ 63"
  shows "lowerBound (low, high) N = float_loIdx low N
       \<and> higherBound (low, high) N = float_hiIdx high N
       \<and> lowerBound (0, 100) N = 0 \<and> higherBound (0, 100) N = N"
proof -
  have "lowerBound (low, high) N = float_loIdx low N"
    unfolding lowerBound_floor[OF assms(1,2)] by (simp add: float_loIdx_def scaled_zero)
  moreover have "higherBound (low, high) N = float_hiIdx high N"
    unfolding higherBound_floor[OF assms(1,2)] by (simp add: float_hiIdx_def)
  moreover have "lowerBound (0, 100) N = 0"
    unfolding lowerBound_floor[OF validated_0_100 assms(2)] by (simp add: scaled_zero)
  moreover have "higherBound (0, 100) N = N"
    by (simp add: higherBound_def)
  ultimately show ?thesis by simp
qed

theorem window_single_precision_witness:
  "validated (0, 50) \<and> (0::int) \<le> 10 \<and> (10::int) < 2 ^ 63
   \<and> lowerBound (0, 50) 10 = float_loIdx 0 10 \<and> higherBound (0, 50) 10 = float_hiIdx 50 10
   \<and> lowerBound (0, 100) 10 = 0 \<and> higherBound (0, 100) 10 = 10"
proof -
  have h: "(0::int) \<le> 10" "(10::int) < 2 ^ 63" by simp_all
  show ?thesis
    using window_single_precision[OF validated_0_50 h] validated_0_50 h by simp
qed

text \<open>
  Claim C4. For every validated range and every row count \<open>N \<ge> 0\<close> the computed window
  satisfies \<open>0 \<le> loIdx \<le> hiIdx \<le> N\<close>, so the assertion \<open>higherBound <= rowCount\<close>
  holds and the window is returned.
\<close>

theorem window_within_row_count:
  assumes "validated (low, high)" and "0 \<le> N" and "N < 2 ^ 63"
  shows "0 \<le> lowerBound (low, high) N
       \<and> lowerBound (low, high) N \<le> higherBound (low, high) N
       \<and> higherBound (low, high) N \<le> N
       \<and> window (low, high) N = Inr (lowerBound (low, high) N, higherBound (low, high) N)"
  using lowerBound_nonneg[OF assms(1,2)] lowerBound_le_higherBound[OF assms(1,2)]
    higherBound_le_count[OF assms(1,2)]
  by (simp add: window_def)

theorem window_within_row_count_witness:
  "validated (50, 100) \<and> (0::int) \<le> 10 \<and> (10::int) < 2 ^ 63
   \<and> 0 \<le> lowerBound (50, 100) 10
   \<and> lowerBound (50, 100) 10 \<le> higherBound (50, 100) 10
   \<and> higherBound (50, 100) 10 \<le> 10
   \<and> window (50, 100) 10 = Inr (lowerBound (50, 100) 10, higherBound (50, 100) 10)"
proof -
  have h: "(0::int) \<le> 10" "(10::int) < 2 ^ 63" by simp_all
  show ?thesis
    using window_within_row_count[OF validated_50_100 h] validated_50_100 h by simp
qed

text \<open>
  Claim C10. The guard of the lower bound tests the high bound: a range with high bound 0
  gets the constant 0 whatever its low bound (for \<open>(50, 0)\<close> and 10 rows the arithmetic
  would give 5). A validated range has a high bound other than 0, so its lower index is
  always the arithmetic \<open>int64_t(low / 100 * rowCount)\<close>, and for \<open>low = 0\<close> that
  arithmetic gives 0.
\<close>

theorem lower_guard_tests_high_bound:
  "lowerBound (low, 0) N = 0
   \<and> lowerBound (50, 0) 10 = 0
   \<and> int64_of_float (float_mul (float_div 50 100) (float_of_int64 10)) = 5
   \<and> (validated (low, high) \<longrightarrow> snd (low, high) \<noteq> 0
        \<and> lowerBound (low, high) N
            = int64_of_float (float_mul (float_div low 100) (float_of_int64 N)))
   \<and> (validated (0, high) \<longrightarrow>
        lowerBound (0, high) N
            = int64_of_float (float_mul (float_div 0 100) (float_of_int64 N))
        \<and> int64_of_float (float_mul (float_div 0 100) (float_of_int64 N)) = 0)"
proof (intro conjI impI)
  show "lowerBound (low, 0) N = 0" by (simp add: lowerBound_def)
  show "lowerBound (50, 0) 10 = 0" by (simp add: lowerBound_def)
  show "int64_of_float (float_mul (float_div 50 100) (float_of_int64 10)) = 5"
    by code_simp
next
  assume v: "validated (low, high)"
  then show "snd (low, high) \<noteq> 0" by (auto simp: validated_def)
  show "lowerBound (low, high) N
          = int64_of_float (float_mul (float_div low 100) (float_of_int64 N))"
    by (rule lowerBound_validated[OF v])
next
  assume v: "validated (0, high)"
  show "lowerBound (0, high) N
          = int64_of_float (float_mul (float_div 0 100) (float_of_int64 N))"
    by (rule lowerBound_validated[OF v])
  show "int64_of_float (float_mul (float_div 0 100) (float_of_int64 N)) = 0"
    by (simp add: scaled_zero int64_of_float_def)
qed

theorem lower_guard_tests_high_bound_witness:
  "validated (0, 50) \<and> snd (0::rat, 50::rat) \<noteq> 0
   \<and> lowerBound (0, 50) 10 = int64_of_float (float_mul (float_div 0 100) (float_of_int64 10))
   \<and> int64_of_float (float_mul (float_div 0 100) (float_of_int64 10)) = 0"
  using lower_guard_tests_high_bound[of 0 10 50] validated_0_50 by blast

section \<open>Properties of the writer\<close>

lemma map_of_replace:
  "map_of (map (\<lambda>ub. if fst ub = t then (t, rows) else ub) acc) u
     = (if u = t \<and> t \<in> fst ` set acc then Some rows else map_of acc u)"
proof (induction acc arbitrary: u)
  case Nil
  show ?case by simp
next
  case (Cons a acc)
  obtain v b where a: "a = (v, b)" by (cases a)
  have keys: "t \<in> fst ` set (a # acc) \<longleftrightarrow> v = t \<or> t \<in> fst ` set acc"
    by (auto simp: a)
  show ?case
  proof (cases "v = t")
    case True
    then show ?thesis unfolding keys by (simp add: a Cons.IH)
  next
    case False
    then show ?thesis unfolding keys by (simp add: a Cons.IH)
  qed
qed

lemma map_of_set_rows: "map_of (set_rows t rows acc) = (map_of acc)(t \<mapsto> rows)"
proof (cases "t \<in> fst ` set acc")
  case True
  then show ?thesis
    by (auto simp: set_rows_def map_of_replace fun_eq_iff)
next
  case False
  then have "map_of acc t = None" by (simp add: map_of_eq_None_iff)
  then show ?thesis using False
    by (auto simp: set_rows_def fun_eq_iff map_add_def split: option.splits)
qed

lemma get_rows_set_rows_same: "get_rows t (set_rows t rows acc) = rows"
  by (simp add: get_rows_def map_of_set_rows)

lemma get_rows_set_rows_other:
  "u \<noteq> t \<Longrightarrow> get_rows u (set_rows t rows acc) = get_rows u acc"
  by (simp add: get_rows_def map_of_set_rows)

lemma map_fst_set_rows_in:
  "t \<in> fst ` set acc \<Longrightarrow> map fst (set_rows t rows acc) = map fst acc"
  by (auto simp: set_rows_def)

lemma distinct_set_rows:
  "distinct (map fst acc) \<Longrightarrow> distinct (map fst (set_rows t rows acc))"
  by (cases "t \<in> fst ` set acc") (auto simp: map_fst_set_rows_in, simp add: set_rows_def)

lemma set_set_rows:
  "tb \<in> set (set_rows t rows acc) \<Longrightarrow> tb = (t, rows) \<or> (tb \<in> set acc \<and> fst tb \<noteq> t)"
  by (auto simp: set_rows_def split: if_splits)

lemma get_rows_absent: "t \<notin> fst ` set acc \<Longrightarrow> get_rows t acc = []"
proof -
  assume "t \<notin> fst ` set acc"
  then have "map_of acc t = None" by (simp add: map_of_eq_None_iff)
  then show ?thesis by (simp add: get_rows_def)
qed

lemma pending_replace:
  assumes "distinct (map fst acc)"
  shows "mset (concat (map snd (set_rows t rows acc))) + mset (get_rows t acc)
           = mset (concat (map snd acc)) + mset rows"
proof (cases "t \<in> fst ` set acc")
  case False
  then show ?thesis by (simp add: set_rows_def get_rows_absent)
next
  case True
  then have eq: "set_rows t rows acc = map (\<lambda>ub. if fst ub = t then (t, rows) else ub) acc"
    by (simp add: set_rows_def)
  from assms True show ?thesis unfolding eq
  proof (induction acc)
    case Nil
    then show ?case by simp
  next
    case (Cons a acc)
    obtain u b where a: "a = (u, b)" by (cases a)
    show ?case
    proof (cases "u = t")
      case True
      then have "t \<notin> fst ` set acc" using Cons.prems(1) a by auto
      then have "map (\<lambda>ub. if fst ub = t then (t, rows) else ub) acc = acc"
        by (induction acc) auto
      then show ?thesis using True a by (simp add: get_rows_def)
    next
      case False
      then have "t \<in> fst ` set acc" using Cons.prems(2) a by auto
      moreover have "distinct (map fst acc)" using Cons.prems(1) by simp
      ultimately have "mset (concat (map snd (map (\<lambda>ub. if fst ub = t then (t, rows) else ub) acc)))
           + mset (get_rows t acc) = mset (concat (map snd acc)) + mset rows"
        by (rule Cons.IH[rotated])
      moreover have "get_rows t (a # acc) = get_rows t acc"
        using False a by (simp add: get_rows_def)
      ultimately show ?thesis using False a by (simp add: add.assoc add.left_commute)
    qed
  qed
qed

lemma get_rows_mem:
  "distinct (map fst acc) \<Longrightarrow> t \<in> fst ` set acc \<Longrightarrow> (t, get_rows t acc) \<in> set acc"
  by (auto simp: get_rows_def split: option.splits)

lemma get_rows_length:
  assumes "batches_below_threshold st"
  shows "length (get_rows t (accum st)) < 1024"
proof (cases "t \<in> fst ` set (accum st)")
  case True
  then have "(t, get_rows t (accum st)) \<in> set (accum st)"
    using assms by (intro get_rows_mem) (simp_all add: batches_below_threshold_def)
  then show ?thesis using assms unfolding batches_below_threshold_def by fastforce
next
  case False
  then show ?thesis by (simp add: get_rows_absent)
qed

lemma batches_below_threshold_iff: "batches_below_threshold st \<longleftrightarrow> batches_within 1023 st"
  by (auto simp: batches_below_threshold_def batches_within_def)

lemma within_set_rows:
  assumes "batches_within n st" and "length rows \<le> n"
  shows "batches_within n (st\<lparr>accum := set_rows t rows (accum st)\<rparr>)"
proof -
  have "length (snd tb) \<le> n" if "tb \<in> set (set_rows t rows (accum st))" for tb
    using set_set_rows[OF that] assms by (auto simp: batches_within_def)
  then show ?thesis using assms(1) by (simp add: batches_within_def distinct_set_rows)
qed

lemma below_threshold_set_rows:
  assumes "batches_below_threshold st" and "length rows < 1024"
  shows "batches_below_threshold (st\<lparr>accum := set_rows t rows (accum st)\<rparr>)"
  using within_set_rows[of 1023 st rows t] assms by (simp add: batches_below_threshold_iff)

lemma all_rows_set_rows:
  assumes "distinct (map fst (accum st))"
  shows "mset (all_rows (st\<lparr>accum := set_rows t rows (accum st)\<rparr>)) + mset (get_rows t (accum st))
           = mset (all_rows st) + mset rows"
  using pending_replace[OF assms, of t rows] by (simp add: all_rows_def pending_def add.assoc)

lemma emplace_back_step:
  assumes inv: "batches_below_threshold st"
    and step: "emplace_back names rowValue st (t, i) = Inr st1"
  shows "0 \<le> i \<and> i < int (length names)"
    and "get_rows t (accum st1) = get_rows t (accum st) @ [(names ! nat i, rowValue)]"
    and "u \<noteq> t \<Longrightarrow> get_rows u (accum st1) = get_rows u (accum st)"
    and "recorded st1 = recorded st"
    and "batches_within 1024 st1"
    and "mset (all_rows st1) = mset (all_rows st) + {#(names ! nat i, rowValue)#}"
    and "\<forall>tb \<in> set (accum st1). fst tb \<noteq> t \<longrightarrow> length (snd tb) < 1024"
proof -
  define rows where "rows = get_rows t (accum st) @ [(names ! nat i, rowValue)]"
  from step show rng: "0 \<le> i \<and> i < int (length names)"
    by (auto simp: emplace_back_def split: if_splits)
  have st1: "st1 = st\<lparr>accum := set_rows t rows (accum st)\<rparr>"
    using step rng by (simp add: emplace_back_def rows_def)
  show "get_rows t (accum st1) = get_rows t (accum st) @ [(names ! nat i, rowValue)]"
    by (simp add: st1 get_rows_set_rows_same rows_def)
  show "get_rows u (accum st1) = get_rows u (accum st)" if "u \<noteq> t"
    using that by (simp add: st1 get_rows_set_rows_other)
  show "recorded st1 = recorded st" by (simp add: st1)
  have w: "batches_within 1024 st"
    using inv by (auto simp: batches_below_threshold_def batches_within_def)
  have "length rows \<le> 1024" using get_rows_length[OF inv, of t] by (simp add: rows_def)
  then show "batches_within 1024 st1" unfolding st1 by (rule within_set_rows[OF w])
  have d: "distinct (map fst (accum st))" using inv by (simp add: batches_below_threshold_def)
  show "mset (all_rows st1) = mset (all_rows st) + {#(names ! nat i, rowValue)#}"
    using all_rows_set_rows[OF d, of t rows] unfolding st1 by (simp add: rows_def)
  show "\<forall>tb \<in> set (accum st1). fst tb \<noteq> t \<longrightarrow> length (snd tb) < 1024"
  proof (intro ballI impI)
    fix tb assume "tb \<in> set (accum st1)" and "fst tb \<noteq> t"
    then have "tb \<in> set (accum st)" using set_set_rows[of tb t rows "accum st"] by (auto simp: st1)
    then show "length (snd tb) < 1024" using inv by (simp add: batches_below_threshold_def)
  qed
qed

lemma flush_if_full_step:
  assumes w: "batches_within 1024 st1"
  shows "length (get_rows t (accum st1)) \<ge> 1024 \<Longrightarrow>
           recorded (flush_if_full st1 t) = recorded st1 @ [get_rows t (accum st1)]
           \<and> get_rows t (accum (flush_if_full st1 t)) = []"
    and "length (get_rows t (accum st1)) < 1024 \<Longrightarrow> flush_if_full st1 t = st1"
    and "u \<noteq> t \<Longrightarrow> get_rows u (accum (flush_if_full st1 t)) = get_rows u (accum st1)"
    and "mset (all_rows (flush_if_full st1 t)) = mset (all_rows st1)"
    and "(\<forall>tb \<in> set (accum st1). fst tb \<noteq> t \<longrightarrow> length (snd tb) < 1024)
           \<Longrightarrow> batches_below_threshold (flush_if_full st1 t)"
proof -
  have d: "distinct (map fst (accum st1))" using w by (simp add: batches_within_def)
  show "recorded (flush_if_full st1 t) = recorded st1 @ [get_rows t (accum st1)]
           \<and> get_rows t (accum (flush_if_full st1 t)) = []"
    if "length (get_rows t (accum st1)) \<ge> 1024"
    using that by (simp add: flush_if_full_def get_rows_set_rows_same)
  show "flush_if_full st1 t = st1" if "length (get_rows t (accum st1)) < 1024"
    using that by (simp add: flush_if_full_def)
  show "get_rows u (accum (flush_if_full st1 t)) = get_rows u (accum st1)" if "u \<noteq> t"
    using that by (simp add: flush_if_full_def get_rows_set_rows_other)
  show "mset (all_rows (flush_if_full st1 t)) = mset (all_rows st1)"
  proof (cases "length (get_rows t (accum st1)) \<ge> 1024")
    case True
    have "mset (pending (st1\<lparr>accum := set_rows t [] (accum st1)\<rparr>)) + mset (get_rows t (accum st1))
            = mset (pending st1)"
      using pending_replace[OF d, of t "[]"] by (simp add: pending_def)
    then show ?thesis using True
      by (simp add: flush_if_full_def all_rows_def pending_def add.assoc add.commute)
  next
    case False
    then show ?thesis by (simp add: flush_if_full_def)
  qed
  show "batches_below_threshold (flush_if_full st1 t)"
    if o: "\<forall>tb \<in> set (accum st1). fst tb \<noteq> t \<longrightarrow> length (snd tb) < 1024"
  proof (cases "length (get_rows t (accum st1)) \<ge> 1024")
    case True
    have "length (snd tb) < 1024" if "tb \<in> set (set_rows t [] (accum st1))" for tb
      using set_set_rows[OF that] o by auto
    then show ?thesis using True d
      by (simp add: flush_if_full_def batches_below_threshold_def distinct_set_rows)
  next
    case False
    have "length (snd tb) < 1024" if "tb \<in> set (accum st1)" for tb
    proof (cases "fst tb = t")
      case True
      then have "t \<in> fst ` set (accum st1)" using that by force
      from get_rows_mem[OF d this] have "(t, get_rows t (accum st1)) \<in> set (accum st1)" .
      then have "snd tb = get_rows t (accum st1)"
        using that True d by (metis eq_key_imp_eq_value prod.collapse)
      then show ?thesis using False by simp
    next
      case False
      then show ?thesis using o that by blast
    qed
    then show ?thesis using False d
      by (simp add: flush_if_full_def batches_below_threshold_def)
  qed
qed

lemma applyFct_Inr:
  assumes "applyFct names rowValue st (t, i) = Inr st'"
  obtains st1 where "emplace_back names rowValue st (t, i) = Inr st1"
    and "st' = flush_if_full st1 t"
  using assms by (auto simp: applyFct_def split: sum.splits)

lemma applyFct_in_range:
  "0 \<le> i \<Longrightarrow> i < int (length names) \<Longrightarrow> \<exists>st'. applyFct names rowValue st (t, i) = Inr st'"
  by (simp add: applyFct_def emplace_back_def)

lemma applyFct_preserves:
  assumes inv: "batches_below_threshold st"
    and step: "applyFct names rowValue st (t, i) = Inr st'"
  shows "batches_below_threshold st'"
    and "mset (all_rows st') = mset (all_rows st) + {#(names ! nat i, rowValue)#}"
    and "0 \<le> i \<and> i < int (length names)"
proof -
  from applyFct_Inr[OF step] obtain st1 where
    e: "emplace_back names rowValue st (t, i) = Inr st1" and f: "st' = flush_if_full st1 t"
    by blast
  note es = emplace_back_step[OF inv e]
  show "batches_below_threshold st'"
    unfolding f by (rule flush_if_full_step(5)[OF es(5) es(7)])
  show "mset (all_rows st') = mset (all_rows st) + {#(names ! nat i, rowValue)#}"
    unfolding f by (simp add: flush_if_full_step(4)[OF es(5)] es(6))
  show "0 \<le> i \<and> i < int (length names)" by (rule es(1))
qed

lemma run_schedule_preserves:
  assumes "batches_below_threshold st"
    and "run_schedule (applyFct names rowValue) sched st = Inr st'"
  shows "batches_below_threshold st'"
    and "mset (all_rows st')
           = mset (all_rows st) + image_mset (\<lambda>i. (names ! nat i, rowValue)) (mset (map snd sched))"
    and "\<forall>ti \<in> set sched. 0 \<le> snd ti \<and> snd ti < int (length names)"
  using assms
proof (induction sched arbitrary: st)
  case Nil
  { case 1 then show ?case by simp }
  { case 2 then show ?case by simp }
  { case 3 then show ?case by simp }
next
  case (Cons ti sched)
  obtain t i where ti: "ti = (t, i)" by (cases ti)
  { case 1
    then obtain st1 where a: "applyFct names rowValue st (t, i) = Inr st1"
      and r: "run_schedule (applyFct names rowValue) sched st1 = Inr st'"
      by (auto simp: ti split: sum.splits)
    from Cons.IH(1)[OF applyFct_preserves(1)[OF 1(1) a] r] show ?case . }
  { case 2
    then obtain st1 where a: "applyFct names rowValue st (t, i) = Inr st1"
      and r: "run_schedule (applyFct names rowValue) sched st1 = Inr st'"
      by (auto simp: ti split: sum.splits)
    from Cons.IH(2)[OF applyFct_preserves(1)[OF 2(1) a] r] applyFct_preserves(2)[OF 2(1) a]
    show ?case by (simp add: ti) }
  { case 3
    then obtain st1 where a: "applyFct names rowValue st (t, i) = Inr st1"
      and r: "run_schedule (applyFct names rowValue) sched st1 = Inr st'"
      by (auto simp: ti split: sum.splits)
    from Cons.IH(3)[OF applyFct_preserves(1)[OF 3(1) a] r] applyFct_preserves(3)[OF 3(1) a]
    show ?case by (simp add: ti) }
qed

lemma run_schedule_in_range:
  assumes "\<forall>ti \<in> set sched. 0 \<le> snd ti \<and> snd ti < int (length names)"
  shows "\<exists>st'. run_schedule (applyFct names rowValue) sched st = Inr st'"
  using assms
proof (induction sched arbitrary: st)
  case Nil
  show ?case by simp
next
  case (Cons ti sched)
  obtain t i where ti: "ti = (t, i)" by (cases ti)
  from Cons.prems have "0 \<le> i" "i < int (length names)" by (simp_all add: ti)
  from applyFct_in_range[OF this] obtain st1 where
    "applyFct names rowValue st (t, i) = Inr st1" by blast
  moreover from Cons.prems have "\<forall>ti \<in> set sched. 0 \<le> snd ti \<and> snd ti < int (length names)"
    by simp
  from Cons.IH[OF this] obtain st' where
    "run_schedule (applyFct names rowValue) sched st1 = Inr st'" by blast
  ultimately show ?case by (simp add: ti)
qed

lemma window_Inr:
  assumes "window r N = Inr (lo, hi)"
  shows "lo = lowerBound r N" "hi = higherBound r N" "hi \<le> N"
  using assms by (auto simp: window_def split: if_splits)

lemma window_rows_mset:
  assumes "valid_schedule (lowerBound (snd b) (int (length names)))
             (higherBound (snd b) (int (length names))) sched"
  shows "image_mset (\<lambda>i. (names ! nat i, [(''bucket'', fst b, ts)])) (mset (map snd sched))
           = mset (window_rows names ts b)"
  using assms by (simp add: valid_schedule_def window_rows_def flip: mset_map)

lemma process_buckets_preserves:
  assumes "batches_below_threshold st"
    and "valid_schedules (int (length names)) sched_of bs"
    and "process_buckets names ts sched_of bs st = Inr st'"
  shows "batches_below_threshold st'"
    and "mset (all_rows st') = mset (all_rows st) + mset (concat (map (window_rows names ts) bs))"
  using assms
proof (induction bs arbitrary: st)
  case Nil
  { case 1 then show ?case by simp }
  { case 2 then show ?case by simp }
next
  case (Cons b bs)
  have step: "\<exists>st1. run_schedule (applyFct names [(''bucket'', fst b, ts)]) (sched_of (fst b)) st = Inr st1
      \<and> process_buckets names ts sched_of bs st1 = Inr st'"
    if "process_buckets names ts sched_of (b # bs) st = Inr st'" for st
    using that by (auto simp: Let_def parallelMap_def split: sum.splits)
  have vs: "valid_schedules (int (length names)) sched_of bs"
    and vb: "valid_schedule (lowerBound (snd b) (int (length names)))
             (higherBound (snd b) (int (length names))) (sched_of (fst b))"
    if "valid_schedules (int (length names)) sched_of (b # bs)"
    using that by (simp_all add: valid_schedules_def)
  { case 1
    from step[OF 1(3)] obtain st1 where
      p: "run_schedule (applyFct names [(''bucket'', fst b, ts)]) (sched_of (fst b)) st = Inr st1"
      and r: "process_buckets names ts sched_of bs st1 = Inr st'" by blast
    from Cons.IH(1)[OF run_schedule_preserves(1)[OF 1(1) p] vs[OF 1(2)] r] show ?case . }
  { case 2
    from step[OF 2(3)] obtain st1 where
      p: "run_schedule (applyFct names [(''bucket'', fst b, ts)]) (sched_of (fst b)) st = Inr st1"
      and r: "process_buckets names ts sched_of bs st1 = Inr st'" by blast
    from Cons.IH(2)[OF run_schedule_preserves(1)[OF 2(1) p] vs[OF 2(2)] r]
      run_schedule_preserves(2)[OF 2(1) p] window_rows_mset[OF vb[OF 2(2)], of ts]
    show ?case by simp }
qed

lemma valid_schedule_indices:
  assumes "valid_schedule lo hi sched" and "ti \<in> set sched"
  shows "lo \<le> snd ti \<and> snd ti < hi"
proof -
  have "set (map snd sched) = set [lo..hi - 1]"
    using assms(1) unfolding valid_schedule_def by (rule mset_eq_setD)
  moreover have "snd ti \<in> set (map snd sched)" using assms(2) by simp
  ultimately show ?thesis by auto
qed

lemma process_buckets_succeeds:
  assumes "valid_schedules (int (length names)) sched_of bs"
    and "\<forall>b \<in> set bs. validated (snd b)"
  shows "\<exists>st'. process_buckets names ts sched_of bs st = Inr st'"
  using assms
proof (induction bs arbitrary: st)
  case Nil
  show ?case by simp
next
  case (Cons b bs)
  define N where "N = int (length names)"
  obtain low high where r: "snd b = (low, high)" by (cases "snd b")
  have v: "validated (low, high)" using Cons.prems(2) r by simp
  have N0: "0 \<le> N" by (simp add: N_def)
  have w: "window (snd b) N = Inr (lowerBound (snd b) N, higherBound (snd b) N)"
    unfolding r window_def using higherBound_le_count[OF v N0] by simp
  have vb: "valid_schedule (lowerBound (snd b) N) (higherBound (snd b) N) (sched_of (fst b))"
    using Cons.prems(1) by (simp add: valid_schedules_def N_def)
  have "\<forall>ti \<in> set (sched_of (fst b)). 0 \<le> snd ti \<and> snd ti < int (length names)"
    using valid_schedule_indices[OF vb] lowerBound_nonneg[OF v N0] higherBound_le_count[OF v N0]
    unfolding r N_def by fastforce
  from run_schedule_in_range[OF this] obtain st1 where
    p: "run_schedule (applyFct names [(''bucket'', fst b, ts)]) (sched_of (fst b)) st = Inr st1"
    by blast
  have "valid_schedules (int (length names)) sched_of bs" "\<forall>b \<in> set bs. validated (snd b)"
    using Cons.prems by (simp_all add: valid_schedules_def)
  from Cons.IH[OF this] obtain st' where
    "process_buckets names ts sched_of bs st1 = Inr st'" by blast
  then show ?case using w p by (simp add: N_def parallelMap_def)
qed

lemma empty_writer_below: "batches_below_threshold empty_writer"
  by (simp add: batches_below_threshold_def empty_writer_def)

lemma all_rows_empty: "all_rows empty_writer = []"
  by (simp add: all_rows_def pending_def empty_writer_def)

lemma concat_record_remainder: "concat (recorded (record_remainder st)) = all_rows st"
  by (simp add: record_remainder_def all_rows_def pending_def)

section \<open>Properties of the row collection\<close>

lemma fold_getSize_names:
  "orderedRowNames (fold (\<lambda>row st. getSize st row) rows st) = orderedRowNames st @ map fst rows"
  by (induction rows arbitrary: st) (simp_all add: getSize_def)

lemma fold_getSize_stamp:
  "globalMaxOrderByTimestamp (fold (\<lambda>row st. getSize st row) rows st)
     = fold (\<lambda>ts g. if isADate ts then setMax g ts else g) (concat (map snd rows))
         (globalMaxOrderByTimestamp st)"
  by (induction rows arbitrary: st) (simp_all add: getSize_def)

lemma execute_names: "orderedRowNames (execute rows) = map fst rows"
  by (simp add: execute_def fold_getSize_names)

lemma fold_setMax_Seconds:
  "fold (\<lambda>ts g. if isADate ts then setMax g ts else g) ds (Seconds a)
     = Seconds (Max (insert a (set (defined_seconds ds))))"
proof (induction ds arbitrary: a)
  case Nil
  show ?case by simp
next
  case (Cons d ds)
  show ?case
  proof (cases d)
    case (Seconds s)
    have m: "Max (insert (max a s) (set (defined_seconds ds)))
        = Max (insert a (insert s (set (defined_seconds ds))))"
      by (cases "set (defined_seconds ds) = {}") (simp_all add: max.assoc)
    have "setMax (Seconds a) (Seconds s) = Seconds (max a s)"
      by (simp add: setMax_def max_def)
    then show ?thesis using Cons.IH[of "max a s"] Seconds by (simp add: m)
  qed (simp_all add: Cons.IH)
qed

lemma fold_setMax_NegativeInfinity:
  "fold (\<lambda>ts g. if isADate ts then setMax g ts else g) ds NegativeInfinity
     = (if defined_seconds ds = [] then NegativeInfinity
        else Seconds (Max (set (defined_seconds ds))))"
proof (induction ds)
  case Nil
  show ?case by simp
next
  case (Cons d ds)
  show ?case
  proof (cases d)
    case (Seconds s)
    then show ?thesis by (simp add: setMax_def fold_setMax_Seconds)
  qed (simp_all add: Cons.IH)
qed

lemma execute_stamp:
  "globalMaxOrderByTimestamp (execute rows)
     = (if defined_seconds (all_timestamps rows) = [] then NegativeInfinity
        else Seconds (Max (set (defined_seconds (all_timestamps rows)))))"
  by (simp add: execute_def fold_getSize_stamp fold_setMax_NegativeInfinity all_timestamps_def)

lemma run_result:
  assumes "valid_schedules (int (length rows)) sched_of bs"
    and "run rows sched_of bs = Inr out"
  shows "mset (concat out)
     = mset (concat (map (window_rows (map fst rows) (globalMaxOrderByTimestamp (execute rows))) bs))"
proof -
  define c where "c = execute rows"
  have n: "orderedRowNames c = map fst rows" by (simp add: c_def execute_names)
  from assms(2) obtain st where
    p: "process_buckets (map fst rows) (globalMaxOrderByTimestamp c) sched_of bs empty_writer = Inr st"
    and out: "out = recorded (record_remainder st)"
    by (auto simp: run_def Let_def n c_def[symmetric] split: sum.splits)
  have v: "valid_schedules (int (length (map fst rows))) sched_of bs" using assms(1) by simp
  from process_buckets_preserves(2)[OF empty_writer_below v p]
  show ?thesis by (simp add: out concat_record_remainder all_rows_empty c_def)
qed

lemma run_succeeds:
  assumes "valid_schedules (int (length rows)) sched_of bs"
    and "\<forall>b \<in> set bs. validated (snd b)"
  shows "\<exists>out. run rows sched_of bs = Inr out"
proof -
  have v: "valid_schedules (int (length (map fst rows))) sched_of bs" using assms(1) by simp
  from process_buckets_succeeds[OF v assms(2)] obtain st where
    "process_buckets (map fst rows) (globalMaxOrderByTimestamp (execute rows)) sched_of bs
       empty_writer = Inr st" by blast
  then show ?thesis by (simp add: run_def Let_def execute_names)
qed

section \<open>Properties of a run\<close>

lemma filter_window_rows:
  "filter (\<lambda>rc. snd rc = [(''bucket'', n, T)]) (window_rows names T b)
     = (if fst b = n then window_rows names T b else [])"
  by (simp add: window_rows_def filter_map comp_def)

lemma filter_windows:
  assumes "distinct (map fst bs)" and "b \<in> set bs"
  shows "filter (\<lambda>rc. snd rc = [(''bucket'', fst b, T)]) (concat (map (window_rows names T) bs))
           = window_rows names T b"
  using assms
proof (induction bs)
  case Nil
  then show ?case by simp
next
  case (Cons a bs)
  show ?case
  proof (cases "a = b")
    case True
    then have "fst b \<notin> fst ` set bs" using Cons.prems(1) by simp
    then have "filter (\<lambda>rc. snd rc = [(''bucket'', fst b, T)])
                 (concat (map (window_rows names T) bs)) = []"
      by (induction bs) (auto simp: filter_window_rows)
    then show ?thesis using True by (simp add: filter_window_rows)
  next
    case False
    then have b: "b \<in> set bs" using Cons.prems(2) by simp
    then have "fst a \<noteq> fst b" using Cons.prems(1) by force
    then show ?thesis using Cons.IH[OF _ b] Cons.prems(1) by (simp add: filter_window_rows)
  qed
qed

lemma length_window_rows:
  "length (window_rows names T b)
     = nat (higherBound (snd b) (int (length names)) - lowerBound (snd b) (int (length names)))"
  by (simp add: window_rows_def)

text \<open>
  Claim C5. Whatever the number of workers, the order in which the calls take effect and
  the threshold flushes that occur, a run that processes each index of each window once
  records, for every bucket, exactly the rows of its window \<open>[lo, hi)\<close>, each once:
  \<open>hi - lo\<close> assignments; and with validated ranges the run does return. With 5000 rows
  in one window and 8 workers, 5000 assignments are recorded.
\<close>

theorem window_rows_recorded_once:
  assumes "valid_schedules (int (length rows)) sched_of bs"
    and "distinct (map fst bs)"
    and "b \<in> set bs"
  defines "c \<equiv> execute rows"
  defines "T \<equiv> globalMaxOrderByTimestamp c"
  shows "(\<forall>out. run rows sched_of bs = Inr out \<longrightarrow>
           filter_mset (\<lambda>rc. snd rc = [(''bucket'', fst b, T)]) (mset (concat out))
             = mset (window_rows (orderedRowNames c) T b)
           \<and> size (filter_mset (\<lambda>rc. snd rc = [(''bucket'', fst b, T)]) (mset (concat out)))
             = nat (higherBound (snd b) (int (length rows))
                     - lowerBound (snd b) (int (length rows))))
       \<and> ((\<forall>b \<in> set bs. validated (snd b)) \<longrightarrow> (\<exists>out. run rows sched_of bs = Inr out))"
proof (intro conjI allI impI)
  fix out assume out: "run rows sched_of bs = Inr out"
  have n: "orderedRowNames c = map fst rows" by (simp add: c_def execute_names)
  have "mset (concat out) = mset (concat (map (window_rows (map fst rows) T) bs))"
    unfolding T_def c_def by (rule run_result[OF assms(1) out])
  then show f: "filter_mset (\<lambda>rc. snd rc = [(''bucket'', fst b, T)]) (mset (concat out))
      = mset (window_rows (orderedRowNames c) T b)"
    by (simp add: n filter_windows[OF assms(2,3)] flip: mset_filter)
  show "size (filter_mset (\<lambda>rc. snd rc = [(''bucket'', fst b, T)]) (mset (concat out)))
             = nat (higherBound (snd b) (int (length rows))
                     - lowerBound (snd b) (int (length rows)))"
    unfolding f by (simp add: length_window_rows n)
next
  assume "\<forall>b \<in> set bs. validated (snd b)"
  then show "\<exists>out. run rows sched_of bs = Inr out"
    by (rule run_succeeds[OF assms(1)])
qed

lemma valid_eight_workers: "valid_schedules (int (length rows_5000)) eight_workers one_bucket"
proof -
  have "lowerBound (0, 100) 5000 = 0"
    using lowerBound_floor[OF validated_0_100, of 5000] by (simp add: scaled_zero)
  moreover have "higherBound (0, 100) 5000 = 5000" by (simp add: higherBound_def)
  moreover have "map snd (eight_workers ''all'') = [0..4999]"
    by (simp add: eight_workers_def comp_def)
  ultimately show ?thesis
    by (simp add: valid_schedules_def one_bucket_def valid_schedule_def rows_5000_def)
qed

theorem window_rows_recorded_once_witness:
  "valid_schedules (int (length rows_5000)) eight_workers one_bucket
   \<and> distinct (map fst one_bucket) \<and> (''all'', (0, 100)) \<in> set one_bucket
   \<and> (\<exists>out. run rows_5000 eight_workers one_bucket = Inr out
        \<and> size (filter_mset (\<lambda>rc. snd rc = [(''bucket'', ''all'', NegativeInfinity)])
             (mset (concat out))) = 5000)"
proof -
  have d: "distinct (map fst one_bucket)" and m: "(''all'', (0, 100)) \<in> set one_bucket"
    by (simp_all add: one_bucket_def)
  have v: "\<forall>b \<in> set one_bucket. validated (snd b)"
    by (simp add: one_bucket_def validated_0_100)
  note t = window_rows_recorded_once[OF valid_eight_workers d m]
  from t v obtain out where
    out: "run rows_5000 eight_workers one_bucket = Inr out" by blast
  have T: "globalMaxOrderByTimestamp (execute rows_5000) = NegativeInfinity"
  proof -
    have "all_timestamps rows_5000 = []"
      by (simp add: all_timestamps_def rows_5000_def comp_def)
    then show ?thesis by (simp add: execute_stamp)
  qed
  have lo: "lowerBound (0, 100) 5000 = 0"
    using lowerBound_floor[OF validated_0_100, of 5000] by (simp add: scaled_zero)
  have hi: "higherBound (0, 100) 5000 = 5000" by (simp add: higherBound_def)
  have l: "int (length rows_5000) = 5000" by (simp add: rows_5000_def)
  from t[THEN conjunct1, rule_format, OF out, THEN conjunct2]
  have "size (filter_mset (\<lambda>rc. snd rc = [(''bucket'', ''all'', NegativeInfinity)])
             (mset (concat out))) = 5000"
    by (simp add: T l lo hi)
  with valid_eight_workers d m out show ?thesis by blast
qed

text \<open>
  Claim C8. A call on thread \<open>t\<close> appends one row to the batch of \<open>t\<close> and to no other;
  with every batch below 1024 rows before the call, no batch exceeds 1024 rows after the
  append; a batch that has reached 1024 rows is handed to \<open>recordRows\<close> and emptied
  within the same call, one that has not stays as it is; and after the call, hence after
  any number of calls of any schedule, every batch is again below 1024 rows.
\<close>

theorem batch_never_exceeds_threshold:
  assumes "batches_below_threshold st"
    and "emplace_back names rowValue st (t, i) = Inr st1"
  shows "get_rows t (accum st1) = get_rows t (accum st) @ [(names ! nat i, rowValue)]
       \<and> (\<forall>u. u \<noteq> t \<longrightarrow> get_rows u (accum st1) = get_rows u (accum st))
       \<and> batches_within 1024 st1
       \<and> applyFct names rowValue st (t, i) = Inr (flush_if_full st1 t)
       \<and> (length (get_rows t (accum st1)) = 1024 \<longrightarrow>
            recorded (flush_if_full st1 t) = recorded st @ [get_rows t (accum st1)]
            \<and> get_rows t (accum (flush_if_full st1 t)) = [])
       \<and> (length (get_rows t (accum st1)) < 1024 \<longrightarrow> flush_if_full st1 t = st1)
       \<and> batches_below_threshold (flush_if_full st1 t)
       \<and> (\<forall>sched st'. run_schedule (applyFct names rowValue) sched (flush_if_full st1 t) = Inr st'
            \<longrightarrow> batches_below_threshold st')
       \<and> batches_below_threshold (empty_writer :: 'a writer)"
proof -
  note es = emplace_back_step[OF assms]
  note fs = flush_if_full_step[OF es(5), of t]
  have inv': "batches_below_threshold (flush_if_full st1 t)"
    by (rule fs(5)[OF es(7)])
  have "recorded (flush_if_full st1 t) = recorded st @ [get_rows t (accum st1)]
            \<and> get_rows t (accum (flush_if_full st1 t)) = []"
    if "length (get_rows t (accum st1)) = 1024"
    using fs(1) that es(4) by simp
  moreover have "applyFct names rowValue st (t, i) = Inr (flush_if_full st1 t)"
    by (simp add: applyFct_def assms(2))
  moreover have "batches_below_threshold st'"
    if "run_schedule (applyFct names rowValue) sched (flush_if_full st1 t) = Inr st'" for sched st'
    by (rule run_schedule_preserves(1)[OF inv' that])
  ultimately show ?thesis
    using es(2,3,5) fs(2) inv' empty_writer_below by blast
qed

lemma nearly_full_below: "batches_below_threshold nearly_full"
  by (simp add: batches_below_threshold_def nearly_full_def)

theorem batch_never_exceeds_threshold_witness:
  "batches_below_threshold nearly_full
   \<and> emplace_back [7, 8] [] nearly_full (0, 1) = Inr after_append
   \<and> applyFct [7, 8] [] nearly_full (0, 1) = Inr (flush_if_full after_append 0)
   \<and> batches_below_threshold (flush_if_full after_append 0)"
proof -
  have e: "emplace_back [7, 8] [] nearly_full (0, 1) = Inr after_append"
    by (simp add: emplace_back_def nearly_full_def set_rows_def get_rows_def after_append_def)
  note t = batch_never_exceeds_threshold[OF nearly_full_below e]
  note a = t[THEN conjunct2, THEN conjunct2, THEN conjunct2, THEN conjunct1]
  note b = t[THEN conjunct2, THEN conjunct2, THEN conjunct2, THEN conjunct2, THEN conjunct2,
      THEN conjunct2, THEN conjunct1]
  show ?thesis by (intro conjI nearly_full_below e a b)
qed

lemma get_rows_within:
  assumes "batches_within n st"
  shows "length (get_rows t (accum st)) \<le> n"
proof (cases "t \<in> fst ` set (accum st)")
  case True
  then have "(t, get_rows t (accum st)) \<in> set (accum st)"
    using assms by (intro get_rows_mem) (simp_all add: batches_within_def)
  then show ?thesis using assms unfolding batches_within_def by fastforce
next
  case False
  then show ?thesis by (simp add: get_rows_absent)
qed

lemma applyFct_full_batches:
  assumes "batches_below_threshold st" and "full_batches st"
    and "applyFct names rowValue st (t, i) = Inr st'"
  shows "full_batches st'"
proof -
  from applyFct_Inr[OF assms(3)] obtain st1 where
    e: "emplace_back names rowValue st (t, i) = Inr st1" and f: "st' = flush_if_full st1 t"
    by blast
  note es = emplace_back_step[OF assms(1) e]
  note fs = flush_if_full_step[OF es(5), of t]
  show ?thesis
  proof (cases "length (get_rows t (accum st1)) \<ge> 1024")
    case True
    then have "length (get_rows t (accum st1)) = 1024"
      using get_rows_within[OF es(5), of t] by simp
    then show ?thesis using fs(1)[OF True] assms(2) es(4) by (simp add: f full_batches_def)
  next
    case False
    then have "st' = st1" using fs(2) f by simp
    then show ?thesis using assms(2) es(4) by (simp add: full_batches_def)
  qed
qed

lemma run_schedule_full_batches:
  assumes "batches_below_threshold st" and "full_batches st"
    and "run_schedule (applyFct names rowValue) sched st = Inr st'"
  shows "full_batches st'"
  using assms
proof (induction sched arbitrary: st)
  case Nil
  then show ?case by simp
next
  case (Cons ti sched)
  obtain t i where ti: "ti = (t, i)" by (cases ti)
  from Cons.prems(3) obtain st1 where a: "applyFct names rowValue st (t, i) = Inr st1"
    and r: "run_schedule (applyFct names rowValue) sched st1 = Inr st'"
    by (auto simp: ti split: sum.splits)
  show ?case
    by (rule Cons.IH[OF applyFct_preserves(1)[OF Cons.prems(1) a]
          applyFct_full_batches[OF Cons.prems(1,2) a] r])
qed

lemma process_buckets_full_batches:
  assumes "batches_below_threshold st" and "full_batches st"
    and "process_buckets names ts sched_of bs st = Inr st'"
  shows "full_batches st'"
  using assms
proof (induction bs arbitrary: st)
  case Nil
  then show ?case by simp
next
  case (Cons b bs)
  from Cons.prems(3) obtain st1 where
    p: "run_schedule (applyFct names [(''bucket'', fst b, ts)]) (sched_of (fst b)) st = Inr st1"
    and r: "process_buckets names ts sched_of bs st1 = Inr st'"
    by (auto simp: Let_def parallelMap_def split: sum.splits)
  show ?case
    by (rule Cons.IH[OF run_schedule_preserves(1)[OF Cons.prems(1) p]
          run_schedule_full_batches[OF Cons.prems(1,2) p] r])
qed

lemma process_buckets_append:
  "process_buckets names ts sched_of (bs1 @ bs2) st
     = (case process_buckets names ts sched_of bs1 st of
          Inl e \<Rightarrow> Inl e
        | Inr st1 \<Rightarrow> process_buckets names ts sched_of bs2 st1)"
  by (induction bs1 arbitrary: st) (auto simp: Let_def parallelMap_def split: sum.splits)

lemma full_batches_empty: "full_batches empty_writer"
  by (simp add: full_batches_def empty_writer_def)

text \<open>
  Claim C6, as stated: it fails for two rows and the buckets \<open>a = [0, 50]\<close>,
  \<open>b = [50, 100]\<close> with one worker. When the fan-out of window \<open>a\<close> has completed, and
  that of window \<open>b\<close> is about to start, nothing has been recorded and the batch of the
  worker still holds the row of window \<open>a\<close>.
\<close>

theorem remainder_not_drained_counterexample:
  "process_buckets two_names NegativeInfinity one_worker [(''a'', (0, 50))] empty_writer
     = Inr after_first_window
   \<and> \<not> window_drained after_first_window
   \<and> recorded after_first_window = []"
proof -
  have "window (0, 50) 2 = Inr (0, 1)" by code_simp
  then have "process_buckets two_names NegativeInfinity one_worker [(''a'', (0, 50))] empty_writer
     = Inr after_first_window"
    by (simp add: two_names_def one_worker_def parallelMap_def applyFct_def emplace_back_def flush_if_full_def
        get_rows_def set_rows_def empty_writer_def after_first_window_def)
  then show ?thesis
    by (simp add: window_drained_def pending_def after_first_window_def)
qed

text \<open>
  Claim C6, amended. The windows are processed one after the other: the fan-out of the
  next window starts in the state the previous fan-out has left, and the remainders are
  not drained between windows. In that state every thread's batch has fewer than 1024
  rows, only batches of exactly 1024 rows have been recorded, and recorded and pending
  rows together are the rows of the windows processed so far. A run processes the
  remaining windows from that state and records every thread's remaining batch once,
  after the last window: its output is the batches of 1024 rows recorded during the
  windows, followed by the remaining batch of every thread, and holds exactly the rows of
  all windows.
\<close>

theorem remainders_recorded_after_last_window:
  fixes rows :: "'r scanned_row list"
  defines "c \<equiv> execute rows"
  assumes "valid_schedules (int (length rows)) sched_of (bs1 @ bs2)"
    and "process_buckets (orderedRowNames c) (globalMaxOrderByTimestamp c) sched_of bs1
           empty_writer = Inr st1"
  shows "process_buckets (orderedRowNames c) (globalMaxOrderByTimestamp c) sched_of (bs1 @ bs2)
             empty_writer
           = process_buckets (orderedRowNames c) (globalMaxOrderByTimestamp c) sched_of bs2 st1
       \<and> run rows sched_of (bs1 @ bs2)
           = (case process_buckets (orderedRowNames c) (globalMaxOrderByTimestamp c) sched_of
                     bs2 st1 of
                Inl e \<Rightarrow> Inl e
              | Inr st \<Rightarrow> Inr (recorded st @ map snd (accum st)))
       \<and> batches_below_threshold st1
       \<and> full_batches st1
       \<and> mset (concat (recorded st1)) + mset (pending st1)
            = mset (concat (map (window_rows (orderedRowNames c) (globalMaxOrderByTimestamp c))
                 bs1))
       \<and> (\<forall>out. run rows sched_of (bs1 @ bs2) = Inr out \<longrightarrow>
             (\<exists>st. process_buckets (orderedRowNames c) (globalMaxOrderByTimestamp c) sched_of
                       bs2 st1 = Inr st
                 \<and> out = recorded st @ map snd (accum st)
                 \<and> full_batches st \<and> batches_below_threshold st)
             \<and> mset (concat out)
                 = mset (concat (map (window_rows (orderedRowNames c)
                      (globalMaxOrderByTimestamp c)) (bs1 @ bs2))))
       \<and> ((\<forall>b \<in> set (bs1 @ bs2). validated (snd b)) \<longrightarrow>
             (\<exists>out. run rows sched_of (bs1 @ bs2) = Inr out))"
proof -
  define names where "names = orderedRowNames c"
  define T where "T = globalMaxOrderByTimestamp c"
  have n: "names = map fst rows" by (simp add: names_def c_def execute_names)
  have v: "valid_schedules (int (length names)) sched_of (bs1 @ bs2)"
    using assms(2) by (simp add: n)
  then have v1: "valid_schedules (int (length names)) sched_of bs1"
    by (simp add: valid_schedules_def)
  have s1: "process_buckets names T sched_of bs1 empty_writer = Inr st1"
    using assms(3) by (simp only: names_def T_def)
  have a: "process_buckets names T sched_of (bs1 @ bs2) empty_writer
           = process_buckets names T sched_of bs2 st1"
    by (simp add: process_buckets_append s1)
  have r: "run rows sched_of (bs1 @ bs2)
           = (case process_buckets names T sched_of bs2 st1 of
                Inl e \<Rightarrow> Inl e
              | Inr st \<Rightarrow> Inr (recorded st @ map snd (accum st)))"
    unfolding run_def Let_def c_def[symmetric] names_def[symmetric] T_def[symmetric] a
    by (simp add: record_remainder_def split: sum.splits)
  note p = process_buckets_preserves[OF empty_writer_below v1 s1]
  have f: "full_batches st1"
    by (rule process_buckets_full_batches[OF empty_writer_below full_batches_empty s1])
  have m: "mset (concat (recorded st1)) + mset (pending st1)
            = mset (concat (map (window_rows names T) bs1))"
    using p(2) unfolding all_rows_empty by (simp add: all_rows_def)
  have o: "(\<exists>st. process_buckets names T sched_of bs2 st1 = Inr st
                 \<and> out = recorded st @ map snd (accum st)
                 \<and> full_batches st \<and> batches_below_threshold st)
           \<and> mset (concat out) = mset (concat (map (window_rows names T) (bs1 @ bs2)))"
    if out: "run rows sched_of (bs1 @ bs2) = Inr out" for out
  proof -
    from out r obtain st where
      st: "process_buckets names T sched_of bs2 st1 = Inr st"
      and o: "out = recorded st @ map snd (accum st)"
      by (auto split: sum.splits)
    have w: "process_buckets names T sched_of (bs1 @ bs2) empty_writer = Inr st"
      using a st by simp
    have "full_batches st"
      by (rule process_buckets_full_batches[OF empty_writer_below full_batches_empty w])
    moreover have "batches_below_threshold st"
      by (rule process_buckets_preserves(1)[OF empty_writer_below v w])
    moreover have "mset (concat out) = mset (concat (map (window_rows names T) (bs1 @ bs2)))"
      using run_result[OF assms(2) out] by (simp only: n T_def c_def)
    ultimately show ?thesis using st o by blast
  qed
  have e: "\<exists>out. run rows sched_of (bs1 @ bs2) = Inr out"
    if "\<forall>b \<in> set (bs1 @ bs2). validated (snd b)"
    using that by (rule run_succeeds[OF assms(2)])
  from a r p(1) f m o e show ?thesis
    unfolding names_def T_def by blast
qed

lemma two_row_windows:
  "lowerBound (0, 50) 2 = 0" "higherBound (0, 50) 2 = 1"
  "lowerBound (50, 100) 2 = 1" "higherBound (50, 100) 2 = 2"
  by code_simp+

lemma first_window_state:
  "process_buckets two_names NegativeInfinity one_worker [(''a'', (0, 50))] empty_writer
     = Inr after_first_window"
  by (simp add: window_def two_row_windows two_names_def one_worker_def parallelMap_def applyFct_def
      emplace_back_def flush_if_full_def get_rows_def set_rows_def empty_writer_def
      after_first_window_def)

lemma second_window_state:
  "process_buckets two_names NegativeInfinity one_worker [(''b'', (50, 100))] after_first_window
     = Inr after_second_window"
  by (simp add: window_def two_row_windows two_names_def one_worker_def parallelMap_def applyFct_def
      emplace_back_def flush_if_full_def get_rows_def set_rows_def after_first_window_def
      after_second_window_def both_rows_def)

lemma two_rows_collected:
  "orderedRowNames (execute two_rows) = two_names"
  "globalMaxOrderByTimestamp (execute two_rows) = NegativeInfinity"
  by (simp_all add: execute_names execute_stamp two_rows_def two_names_def all_timestamps_def)

theorem remainders_recorded_after_last_window_witness:
  "valid_schedules (int (length two_rows)) one_worker ([(''a'', (0, 50))] @ [(''b'', (50, 100))])
   \<and> process_buckets (orderedRowNames (execute two_rows))
        (globalMaxOrderByTimestamp (execute two_rows)) one_worker [(''a'', (0, 50))] empty_writer
        = Inr after_first_window
   \<and> \<not> window_drained after_first_window
   \<and> batches_below_threshold after_first_window
   \<and> full_batches after_first_window
   \<and> run two_rows one_worker ([(''a'', (0, 50))] @ [(''b'', (50, 100))])
       = Inr [both_rows]"
proof -
  have v: "valid_schedules (int (length two_rows)) one_worker
             ([(''a'', (0, 50))] @ [(''b'', (50, 100))])"
    by (simp add: valid_schedules_def valid_schedule_def two_row_windows two_rows_def
        one_worker_def)
  have s: "process_buckets (orderedRowNames (execute two_rows))
        (globalMaxOrderByTimestamp (execute two_rows)) one_worker [(''a'', (0, 50))] empty_writer
        = Inr after_first_window"
    by (simp only: two_rows_collected first_window_state)
  have d: "\<not> window_drained after_first_window"
    by (simp add: window_drained_def pending_def after_first_window_def)
  note t = remainders_recorded_after_last_window[OF v s]
  note c = t[THEN conjunct2, THEN conjunct1, unfolded two_rows_collected second_window_state]
  have r: "run two_rows one_worker ([(''a'', (0, 50))] @ [(''b'', (50, 100))])
       = Inr [both_rows]"
    using c by (simp add: after_second_window_def)
  note b = t[THEN conjunct2, THEN conjunct2, THEN conjunct1]
  note f = t[THEN conjunct2, THEN conjunct2, THEN conjunct2, THEN conjunct1]
  show ?thesis by (intro conjI v s d b f r)
qed

lemma three_row_windows:
  "lowerBound (0, 50) 3 = 0" "higherBound (0, 50) 3 = 1"
  "lowerBound (50, 100) 3 = 1" "higherBound (50, 100) 3 = 3"
  by code_simp+

text \<open>
  Claim C7. The rows a run records are the rows of the windows of the configured buckets,
  each with one cell: the \<open>bucket\<close> cell of its bucket, carrying the same timestamp in
  every row: the greatest defined timestamp among the order-by values of all scanned rows
  (negative infinity when none is defined). With timestamps \<open>t1 < t2 < t3\<close> on three rows
  and the buckets \<open>{"a": [0, 50], "b": [50, 100]}\<close>, the run records the three rows and
  the cell of each carries \<open>t3\<close>.
\<close>

theorem cells_carry_global_max_timestamp:
  fixes rows :: "'r scanned_row list"
  assumes "valid_schedules (int (length rows)) sched_of bs"
  defines "T \<equiv> globalMaxOrderByTimestamp (execute rows)"
  shows "(\<forall>out. run rows sched_of bs = Inr out \<longrightarrow>
           mset (concat out)
             = mset (concat (map (\<lambda>b. map (\<lambda>i. (map fst rows ! nat i, [(''bucket'', fst b, T)]))
                   (window_indices (snd b) (int (length rows)))) bs))
           \<and> (\<forall>rc \<in> set (concat out). \<exists>b \<in> set bs. snd rc = [(''bucket'', fst b, T)]))
       \<and> ((\<forall>b \<in> set bs. validated (snd b)) \<longrightarrow> (\<exists>out. run rows sched_of bs = Inr out))
       \<and> T = (if defined_seconds (all_timestamps rows) = [] then NegativeInfinity
              else Seconds (Max (set (defined_seconds (all_timestamps rows)))))
       \<and> (\<forall>d \<in> set (all_timestamps rows). isADate d \<longrightarrow> d = T \<or> date_less d T)
       \<and> (\<forall>(r1::'r) r2 r3 t1 t2 t3. t1 < t2 \<and> t2 < t3 \<longrightarrow>
            globalMaxOrderByTimestamp
              (execute [(r1, [Seconds t1]), (r2, [Seconds t3]), (r3, [Seconds t2])])
              = Seconds t3)
       \<and> (\<forall>(r1::'r) r2 r3 t1 t2 t3 sched. t1 < t2 \<and> t2 < t3
              \<and> valid_schedules 3 sched touching_config \<longrightarrow>
            (\<exists>out. run [(r1, [Seconds t1]), (r2, [Seconds t3]), (r3, [Seconds t2])] sched
                      touching_config = Inr out
               \<and> mset (concat out)
                   = {#(r1, [(''bucket'', ''a'', Seconds t3)]),
                       (r2, [(''bucket'', ''b'', Seconds t3)]),
                       (r3, [(''bucket'', ''b'', Seconds t3)])#}))"
proof (intro conjI ballI allI impI)
  fix out assume out: "run rows sched_of bs = Inr out"
  have w: "window_rows (map fst rows) T
      = (\<lambda>b. map (\<lambda>i. (map fst rows ! nat i, [(''bucket'', fst b, T)]))
                   (window_indices (snd b) (int (length rows))))"
    by (rule ext) (simp add: window_rows_def window_indices_def)
  have "mset (concat out) = mset (concat (map (window_rows (map fst rows) T) bs))"
    unfolding T_def by (rule run_result[OF assms(1) out])
  then show "mset (concat out)
             = mset (concat (map (\<lambda>b. map (\<lambda>i. (map fst rows ! nat i, [(''bucket'', fst b, T)]))
                   (window_indices (snd b) (int (length rows)))) bs))"
    by (simp only: w)
next
  fix out rc assume out: "run rows sched_of bs = Inr out" and "rc \<in> set (concat out)"
  then have "rc \<in># mset (concat out)" by simp
  then have "rc \<in># mset (concat (map (window_rows (map fst rows) T) bs))"
    unfolding T_def by (simp only: run_result[OF assms(1) out])
  then obtain b where "b \<in> set bs" "rc \<in> set (window_rows (map fst rows) T b)" by auto
  then show "\<exists>b \<in> set bs. snd rc = [(''bucket'', fst b, T)]"
    by (auto simp: window_rows_def)
next
  assume "\<forall>b \<in> set bs. validated (snd b)"
  then show "\<exists>out. run rows sched_of bs = Inr out"
    by (rule run_succeeds[OF assms(1)])
next
  show "T = (if defined_seconds (all_timestamps rows) = [] then NegativeInfinity
              else Seconds (Max (set (defined_seconds (all_timestamps rows)))))"
    unfolding T_def by (rule execute_stamp)
next
  fix d assume d: "d \<in> set (all_timestamps rows)" "isADate d"
  from d(2) obtain s where s: "d = Seconds s" by (cases d) simp_all
  have "s \<in> set (defined_seconds ds)" if "Seconds s \<in> set ds" for ds
    using that by (induction ds rule: defined_seconds.induct) auto
  then have m: "s \<in> set (defined_seconds (all_timestamps rows))" using d(1) s by blast
  then have "s \<le> Max (set (defined_seconds (all_timestamps rows)))" by simp
  moreover have "T = Seconds (Max (set (defined_seconds (all_timestamps rows))))"
    unfolding T_def using m by (auto simp: execute_stamp)
  ultimately show "d = T \<or> date_less d T" using s by auto
next
  fix r1 r2 r3 :: 'r and t1 t2 t3 :: int
  assume "t1 < t2 \<and> t2 < t3"
  then show "globalMaxOrderByTimestamp
              (execute [(r1, [Seconds t1]), (r2, [Seconds t3]), (r3, [Seconds t2])])
              = Seconds t3"
    by (simp add: execute_def getSize_def setMax_def)
next
  fix r1 r2 r3 :: 'r and t1 t2 t3 :: int and sched
  assume a: "t1 < t2 \<and> t2 < t3 \<and> valid_schedules 3 sched touching_config"
  define rs where "rs = [(r1, [Seconds t1]), (r2, [Seconds t3]), (r3, [Seconds t2])]"
  have T3: "globalMaxOrderByTimestamp (execute rs) = Seconds t3"
    using a by (simp add: rs_def execute_def getSize_def setMax_def)
  have v: "valid_schedules (int (length rs)) sched touching_config"
    using a by (simp add: rs_def)
  have "\<forall>b \<in> set touching_config. validated (snd b)"
    by (simp add: touching_config_def validated_0_50 validated_50_100)
  from run_succeeds[OF v this] obtain out where out: "run rs sched touching_config = Inr out"
    by blast
  have "mset (concat out)
      = {#(r1, [(''bucket'', ''a'', Seconds t3)]), (r2, [(''bucket'', ''b'', Seconds t3)]),
          (r3, [(''bucket'', ''b'', Seconds t3)])#}"
    unfolding run_result[OF v out] T3
    by (simp add: rs_def touching_config_def window_rows_def three_row_windows upto.simps)
  with out show "\<exists>out. run [(r1, [Seconds t1]), (r2, [Seconds t3]), (r3, [Seconds t2])] sched
                      touching_config = Inr out
               \<and> mset (concat out)
                   = {#(r1, [(''bucket'', ''a'', Seconds t3)]),
                       (r2, [(''bucket'', ''b'', Seconds t3)]),
                       (r3, [(''bucket'', ''b'', Seconds t3)])#}"
    unfolding rs_def by blast
qed

lemma three_rows_valid:
  "valid_schedules (int (length three_rows)) three_rows_schedule touching_config"
  by (simp add: valid_schedules_def valid_schedule_def three_row_windows three_rows_def
      three_rows_schedule_def touching_config_def upto.simps)

theorem cells_carry_global_max_timestamp_witness:
  "valid_schedules (int (length three_rows)) three_rows_schedule touching_config
   \<and> globalMaxOrderByTimestamp (execute three_rows) = Seconds 30
   \<and> (\<exists>out. run three_rows three_rows_schedule touching_config = Inr out
        \<and> mset (concat out)
            = {#(''r0'', [(''bucket'', ''a'', Seconds 30)]),
                (''r1'', [(''bucket'', ''b'', Seconds 30)]),
                (''r2'', [(''bucket'', ''b'', Seconds 30)])#})"
proof -
  have v: "\<forall>b \<in> set touching_config. validated (snd b)"
    by (simp add: touching_config_def validated_0_50 validated_50_100)
  note t = cells_carry_global_max_timestamp[OF three_rows_valid]
  from t v obtain out where out: "run three_rows three_rows_schedule touching_config = Inr out"
    by blast
  have d: "defined_seconds (all_timestamps three_rows) = [10, 30, 20]"
    by (simp add: all_timestamps_def three_rows_def)
  from t[THEN conjunct2, THEN conjunct2, THEN conjunct1]
  have T: "globalMaxOrderByTimestamp (execute three_rows) = Seconds 30"
    by (simp add: d)
  from t[THEN conjunct1, rule_format, OF out, THEN conjunct1]
  have "mset (concat out)
            = {#(''r0'', [(''bucket'', ''a'', Seconds 30)]),
                (''r1'', [(''bucket'', ''b'', Seconds 30)]),
                (''r2'', [(''bucket'', ''b'', Seconds 30)])#}"
    unfolding T
    by (simp add: three_rows_def touching_config_def window_indices_def three_row_windows
        upto.simps)
  with three_rows_valid T out show ?thesis by blast
qed

section \<open>Properties of the importer\<close>

lemma onLine_empty: "onLine parse isObject columns cfg st ([], n) = Inr st"
  by (simp add: onLine_def)

lemma onLine_bad_strict:
  assumes "fst line \<noteq> []" and "bad_line parse isObject (fst line)" and "\<not> ignoreBadLines cfg"
  shows "\<exists>e. onLine parse isObject columns cfg st line = Inl e"
  using assms by (auto simp: onLine_def bad_line_def split: option.splits)

lemma onLine_bad_lenient:
  assumes "fst line \<noteq> []" and "bad_line parse isObject (fst line)" and "ignoreBadLines cfg"
  shows "onLine parse isObject columns cfg st line = Inr (st\<lparr>errors := errors st + 1\<rparr>)"
  using assms by (auto simp: onLine_def bad_line_def split: option.splits)

lemma forEachLine_aborts:
  assumes "line \<in> set lines" and "\<And>st. \<exists>e. f st line = Inl e"
  shows "\<exists>e. forEachLine f lines st = Inl e"
  using assms(1)
proof (induction lines arbitrary: st)
  case Nil
  then show ?case by simp
next
  case (Cons l lines)
  show ?case
  proof (cases "f st l")
    case (Inl e)
    then show ?thesis by simp
  next
    case (Inr st')
    have "l \<noteq> line" using Inr assms(2)[of st] by auto
    then have "line \<in> set lines" using Cons.prems by simp
    from Cons.IH[OF this, of st'] show ?thesis using Inr by simp
  qed
qed

text \<open>
  Claim C9, as stated: it fails for the empty line. No JSON value can be read from it,
  yet with \<open>ignoreBadLines\<close> false the callback raises nothing and the run ends without
  error, and with \<open>ignoreBadLines\<close> true the error counter stays at 0.
\<close>

theorem empty_line_counterexample:
  "bad_line tiny_reader tiny_isObject []
   \<and> \<not> ignoreBadLines default_config
   \<and> onLine tiny_reader tiny_isObject no_columns default_config fresh_importer ([], 3)
       = Inr fresh_importer
   \<and> import_run tiny_reader tiny_isObject no_columns default_config [([], 3)]
       = Inr fresh_importer
   \<and> ignoreBadLines lenient_config
   \<and> onLine tiny_reader tiny_isObject no_columns lenient_config fresh_importer ([], 3)
       = Inr fresh_importer
   \<and> import_run tiny_reader tiny_isObject no_columns lenient_config [([], 3)]
       = Inr fresh_importer
   \<and> errors fresh_importer = 0"
  by (simp add: bad_line_def tiny_reader_def default_config_def lenient_config_def onLine_def
      import_run_def fresh_importer_def)

text \<open>
  Claim C9, amended. An empty line is skipped whatever \<open>ignoreBadLines\<close> is: the callback
  raises nothing, counts nothing and records nothing, and the run goes on with the next
  line. For a line that is not empty and that cannot be parsed or whose value is not an
  object: with \<open>ignoreBadLines\<close> false the callback raises an error (that the line cannot be
  parsed, or that it is not an object), and a run over lines that include it ends with an
  error; with \<open>ignoreBadLines\<close> true the callback only increments the error counter, records
  no row, and the run goes on with the next line. The bucketize run has no such mode: a
  run that does not fail has recorded every row of every window.
\<close>

theorem bad_line_raises_or_is_counted:
  fixes parse :: "string \<Rightarrow> 'j option" and columns :: "'j \<Rightarrow> 'c list"
    and st :: "'c importer"
  shows "(\<forall>cfg st n. onLine parse isObject columns cfg st ([], n) = Inr st)
   \<and> (\<forall>cfg st n lines.
         forEachLine (onLine parse isObject columns cfg) (([], n) # lines) st
           = forEachLine (onLine parse isObject columns cfg) lines st)
   \<and> (fst line \<noteq> [] \<and> bad_line parse isObject (fst line) \<longrightarrow>
        (\<not> ignoreBadLines cfg \<longrightarrow>
            (\<exists>e. onLine parse isObject columns cfg st line = Inl e)
            \<and> onLine parse isObject columns cfg st line
                = Inl (if parse (fst line) = None then UnableToParseLine (snd line)
                       else NotAnObject (snd line))
            \<and> (\<forall>lines. line \<in> set lines \<longrightarrow>
                  (\<exists>e. import_run parse isObject columns cfg lines = Inl e)))
        \<and> (ignoreBadLines cfg \<longrightarrow>
            onLine parse isObject columns cfg st line = Inr (st\<lparr>errors := errors st + 1\<rparr>)
            \<and> (\<forall>lines. forEachLine (onLine parse isObject columns cfg) (line # lines) st
                  = forEachLine (onLine parse isObject columns cfg) lines
                      (st\<lparr>errors := errors st + 1\<rparr>))))
   \<and> (\<forall>(rows :: 'r scanned_row list) sched_of bs out.
         valid_schedules (int (length rows)) sched_of bs \<and> run rows sched_of bs = Inr out \<longrightarrow>
         mset (concat out)
           = mset (concat (map (window_rows (map fst rows)
                 (globalMaxOrderByTimestamp (execute rows))) bs)))"
proof (intro conjI impI allI)
  fix cfg' :: JSONImporterConfig and st' :: "'c importer" and n :: int
  show e: "onLine parse isObject columns cfg' st' ([], n) = Inr st'"
    by (rule onLine_empty)
  fix lines
  show "forEachLine (onLine parse isObject columns cfg') (([], n) # lines) st'
          = forEachLine (onLine parse isObject columns cfg') lines st'"
    by (simp add: onLine_empty)
next
  assume b: "fst line \<noteq> [] \<and> bad_line parse isObject (fst line)"
    and s: "\<not> ignoreBadLines cfg"
  note bs = b[THEN conjunct1] b[THEN conjunct2]
  show "\<exists>e. onLine parse isObject columns cfg st line = Inl e"
    by (rule onLine_bad_strict[OF bs s])
  show "onLine parse isObject columns cfg st line
          = Inl (if parse (fst line) = None then UnableToParseLine (snd line)
                 else NotAnObject (snd line))"
    using b s by (auto simp: onLine_def bad_line_def split: option.splits)
  fix lines assume "line \<in> set lines"
  then show "\<exists>e. import_run parse isObject columns cfg lines = Inl e"
    unfolding import_run_def
    by (rule forEachLine_aborts) (rule onLine_bad_strict[OF bs s])
next
  assume b: "fst line \<noteq> [] \<and> bad_line parse isObject (fst line)"
    and l: "ignoreBadLines cfg"
  note bs = b[THEN conjunct1] b[THEN conjunct2]
  show "onLine parse isObject columns cfg st line = Inr (st\<lparr>errors := errors st + 1\<rparr>)"
    by (rule onLine_bad_lenient[OF bs l])
  fix lines
  show "forEachLine (onLine parse isObject columns cfg) (line # lines) st
          = forEachLine (onLine parse isObject columns cfg) lines (st\<lparr>errors := errors st + 1\<rparr>)"
    by (simp add: onLine_bad_lenient[OF bs l])
next
  fix rows :: "'r scanned_row list" and sched_of bs out
  assume "valid_schedules (int (length rows)) sched_of bs \<and> run rows sched_of bs = Inr out"
  then show "mset (concat out)
               = mset (concat (map (window_rows (map fst rows)
                     (globalMaxOrderByTimestamp (execute rows))) bs))"
    using run_result by blast
qed

theorem bad_line_raises_or_is_counted_witness:
  "fst (''[]'', 3 :: int) \<noteq> [] \<and> bad_line tiny_reader tiny_isObject (fst (''[]'', 3 :: int))
   \<and> \<not> ignoreBadLines default_config
   \<and> onLine tiny_reader tiny_isObject no_columns default_config fresh_importer (''[]'', 3)
       = Inl (NotAnObject 3)
   \<and> (''[]'', 3) \<in> set [(''{}'', 2), (''[]'', 3 :: int)]
   \<and> (\<exists>e. import_run tiny_reader tiny_isObject no_columns default_config
             [(''{}'', 2), (''[]'', 3)] = Inl e)
   \<and> ignoreBadLines lenient_config
   \<and> onLine tiny_reader tiny_isObject no_columns lenient_config fresh_importer (''[]'', 3)
       = Inr (fresh_importer\<lparr>errors := errors fresh_importer + 1\<rparr>)
   \<and> onLine tiny_reader tiny_isObject no_columns lenient_config fresh_importer ([], 4)
       = Inr fresh_importer"
proof -
  have h: "fst (''[]'', 3 :: int) \<noteq> [] \<and> bad_line tiny_reader tiny_isObject (fst (''[]'', 3 :: int))"
    by (simp add: bad_line_def tiny_reader_def tiny_isObject_def)
  have c: "\<not> ignoreBadLines default_config" "ignoreBadLines lenient_config"
    by (simp_all add: default_config_def lenient_config_def)
  have m: "(''[]'', 3) \<in> set [(''{}'', 2), (''[]'', 3 :: int)]" by simp
  have p: "tiny_reader (fst (''[]'', 3 :: int)) \<noteq> None" by (simp add: tiny_reader_def)
  note t1 = bad_line_raises_or_is_counted[of tiny_reader tiny_isObject no_columns
      "(''[]'', 3)" default_config fresh_importer]
  note t2 = bad_line_raises_or_is_counted[of tiny_reader tiny_isObject no_columns
      "(''[]'', 3)" lenient_config fresh_importer]
  from t1 h c(1) have 1: "onLine tiny_reader tiny_isObject no_columns default_config
      fresh_importer (''[]'', 3)
       = Inl (if tiny_reader (fst (''[]'', 3 :: int)) = None then UnableToParseLine (snd (''[]'', 3 :: int))
                       else NotAnObject (snd (''[]'', 3 :: int)))"
    by blast
  have 1: "onLine tiny_reader tiny_isObject no_columns default_config fresh_importer (''[]'', 3)
       = Inl (NotAnObject 3)"
    by (simp only: 1 p if_False snd_conv)
  from t1 h c(1) m have 2: "\<exists>e. import_run tiny_reader tiny_isObject no_columns default_config
             [(''{}'', 2), (''[]'', 3)] = Inl e"
    by blast
  from t2 h c(2) have 3: "onLine tiny_reader tiny_isObject no_columns lenient_config
      fresh_importer (''[]'', 3) = Inr (fresh_importer\<lparr>errors := errors fresh_importer + 1\<rparr>)"
    by blast
  from t2 have 4: "onLine tiny_reader tiny_isObject no_columns lenient_config fresh_importer ([], 4)
       = Inr fresh_importer"
    by blast
  show ?thesis using h c m 1 2 3 4 by blast
qed

section \<open>Contiguous covers\<close>

























end
